theory Spec2Isabelle
  imports Main
begin

section \<open>Characters and skills (a2\_characters.py, a2\_skills.py)\<close>

text \<open>
  Python objects are referred to by address.  A character object lives in the
  character store of the heap, a queue object in the queue store; \<open>==\<close> on
  characters is object identity (no class defines \<open>__eq__\<close>), so it is equality
  of addresses.  Exceptions are values of \<open>error\<close>.
\<close>

datatype error = IndexError | AttributeError | TypeError | ValueError

datatype ctype = Mage | Rogue | Vampire | Sorcerer

datatype skill =
  MageAttack | MageSpecial | RogueAttack | RogueSpecial
  | VampireAttack | VampireSpecial | SorcererAttack | SorcererSpecial

text \<open>\<open>Skill.__init__(cost, damage)\<close> as called by each subclass.\<close>

fun get_sp_cost :: "skill \<Rightarrow> int" where
  "get_sp_cost MageAttack = 5"
| "get_sp_cost MageSpecial = 30"
| "get_sp_cost RogueAttack = 3"
| "get_sp_cost RogueSpecial = 10"
| "get_sp_cost VampireAttack = 15"
| "get_sp_cost VampireSpecial = 20"
| "get_sp_cost SorcererAttack = 15"
| "get_sp_cost SorcererSpecial = 20"

fun skill_damage :: "skill \<Rightarrow> int" where
  "skill_damage MageAttack = 20"
| "skill_damage MageSpecial = 40"
| "skill_damage RogueAttack = 15"
| "skill_damage RogueSpecial = 20"
| "skill_damage VampireAttack = 20"
| "skill_damage VampireSpecial = 30"
| "skill_damage SorcererAttack = 0"
| "skill_damage SorcererSpecial = 25"

text \<open>
  A SkillDecisionTree node: value, condition, priority, children.  The condition
  is a function of caster and target; it is modelled as a predicate on what the
  getters of the two characters return (caster hp, caster sp, target hp,
  target sp), which is all that \<open>f1\<close> .. \<open>f6\<close> read.
\<close>

datatype sdt =
  SkillDecisionTree skill "int \<Rightarrow> int \<Rightarrow> int \<Rightarrow> int \<Rightarrow> bool" int "sdt list"

fun sdt_value :: "sdt \<Rightarrow> skill" where
  "sdt_value (SkillDecisionTree v c p ch) = v"

fun sdt_priority :: "sdt \<Rightarrow> int" where
  "sdt_priority (SkillDecisionTree v c p ch) = p"

record character =
  ctype :: ctype
  hp :: int
  sp :: int
  enemy :: "nat option"
  battle_queue :: nat
  decision_tree :: "sdt option"

fun defense :: "ctype \<Rightarrow> int" where
  "defense Mage = 8"
| "defense Rogue = 10"
| "defense Vampire = 3"
| "defense Sorcerer = 10"

text \<open>The dictionary \<open>_skills\<close> of each class, keys \<open>'A'\<close> and \<open>'S'\<close> in this order.\<close>

fun skills :: "ctype \<Rightarrow> string \<Rightarrow> skill option" where
  "skills t a =
     (if a = ''A'' then
        Some (case t of Mage \<Rightarrow> MageAttack | Rogue \<Rightarrow> RogueAttack
              | Vampire \<Rightarrow> VampireAttack | Sorcerer \<Rightarrow> SorcererAttack)
      else if a = ''S'' then
        Some (case t of Mage \<Rightarrow> MageSpecial | Rogue \<Rightarrow> RogueSpecial
              | Vampire \<Rightarrow> VampireSpecial | Sorcerer \<Rightarrow> SorcererSpecial)
      else None)"

definition is_valid_action :: "character \<Rightarrow> string \<Rightarrow> bool" where
  "is_valid_action c a =
     (case skills (ctype c) a of
        Some s \<Rightarrow> get_sp_cost s \<le> sp c
      | None \<Rightarrow> False)"

definition get_available_actions :: "character \<Rightarrow> string list" where
  "get_available_actions c = filter (is_valid_action c) [''A'', ''S'']"

section \<open>BattleQueue and RestrictedBattleQueue (a2\_battle\_queue.py)\<close>

datatype qclass = BattleQueue | RestrictedBattleQueue

record bqueue =
  qclass :: qclass
  content :: "nat list"
  p1 :: "nat option"
  p2 :: "nat option"
  can_add :: "string list"

text \<open>
  The methods of a queue mutate the queue object only and read the characters;
  each is a function of the character store \<open>cs\<close> and the queue's state that
  returns the new state of the queue (and the value returned, if any).
\<close>

definition BattleQueue_init :: bqueue where
  "BattleQueue_init =
     \<lparr>qclass = BattleQueue, content = [], p1 = None, p2 = None, can_add = []\<rparr>"

definition RestrictedBattleQueue_init :: bqueue where
  "RestrictedBattleQueue_init =
     \<lparr>qclass = RestrictedBattleQueue, content = [], p1 = None, p2 = None, can_add = []\<rparr>"

text \<open>The loop of \<open>_clean_queue\<close>: pop the head while it has no available action.\<close>

fun clean :: "(nat \<Rightarrow> character) \<Rightarrow> nat list \<Rightarrow> nat list" where
  "clean cs [] = []"
| "clean cs (x # xs) =
     (if get_available_actions (cs x) = [] then clean cs xs else x # xs)"

definition clean_queue :: "(nat \<Rightarrow> character) \<Rightarrow> bqueue \<Rightarrow> bqueue" where
  "clean_queue cs q = q\<lparr>content := clean cs (content q)\<rparr>"

definition BattleQueue_add :: "(nat \<Rightarrow> character) \<Rightarrow> bqueue \<Rightarrow> nat \<Rightarrow> bqueue" where
  "BattleQueue_add cs q c =
     (let q1 = q\<lparr>content := content q @ [c]\<rparr>
      in if p1 q1 = None then q1\<lparr>p1 := Some c, p2 := enemy (cs c)\<rparr> else q1)"

definition BattleQueue_remove ::
  "(nat \<Rightarrow> character) \<Rightarrow> bqueue \<Rightarrow> error + (nat \<times> bqueue)" where
  "BattleQueue_remove cs q =
     (let q1 = clean_queue cs q
      in case content q1 of
           [] \<Rightarrow> Inl IndexError
         | x # xs \<Rightarrow> Inr (x, q1\<lparr>content := xs\<rparr>))"

definition is_empty :: "(nat \<Rightarrow> character) \<Rightarrow> bqueue \<Rightarrow> bool \<times> bqueue" where
  "is_empty cs q = (let q1 = clean_queue cs q in (content q1 = [], q1))"

definition peek :: "(nat \<Rightarrow> character) \<Rightarrow> bqueue \<Rightarrow> nat option \<times> bqueue" where
  "peek cs q =
     (let q1 = clean_queue cs q
      in case content q1 of
           x # xs \<Rightarrow> (Some x, q1)
         | [] \<Rightarrow> (p1 q1, q1))"

definition is_over :: "(nat \<Rightarrow> character) \<Rightarrow> bqueue \<Rightarrow> error + (bool \<times> bqueue)" where
  "is_over cs q =
     (case is_empty cs q of
        (True, q1) \<Rightarrow> Inr (True, q1)
      | (False, q1) \<Rightarrow>
          (case p1 q1 of
             None \<Rightarrow> Inl AttributeError
           | Some a \<Rightarrow>
               if hp (cs a) = 0 then Inr (True, q1)
               else (case p2 q1 of
                       None \<Rightarrow> Inl AttributeError
                     | Some b \<Rightarrow> Inr (hp (cs b) = 0, q1))))"

definition get_winner ::
  "(nat \<Rightarrow> character) \<Rightarrow> bqueue \<Rightarrow> error + (nat option \<times> bqueue)" where
  "get_winner cs q =
     (case is_over cs q of
        Inl e \<Rightarrow> Inl e
      | Inr (False, q1) \<Rightarrow> Inr (None, q1)
      | Inr (True, q1) \<Rightarrow>
          (case p1 q1 of
             None \<Rightarrow> Inl AttributeError
           | Some a \<Rightarrow>
               if hp (cs a) = 0 then Inr (p2 q1, q1)
               else (case p2 q1 of
                       None \<Rightarrow> Inl AttributeError
                     | Some b \<Rightarrow>
                         if hp (cs b) = 0 then Inr (p1 q1, q1) else Inr (None, q1))))"

text \<open>
  The counting loop of \<open>RestrictedBattleQueue.add\<close>: \<open>_can_add[i]\<close> is read only
  where \<open>_content[i] == character\<close>, and raises IndexError beyond the ledger's end.
\<close>

fun added_yes_count :: "nat list \<Rightarrow> string list \<Rightarrow> nat \<Rightarrow> error + nat" where
  "added_yes_count [] fs c = Inr 0"
| "added_yes_count (x # xs) [] c =
     (if x = c then Inl IndexError else added_yes_count xs [] c)"
| "added_yes_count (x # xs) (f # fs) c =
     (case added_yes_count xs fs c of
        Inl e \<Rightarrow> Inl e
      | Inr n \<Rightarrow> Inr (if x = c \<and> f = ''yes'' then Suc n else n))"

definition RestrictedBattleQueue_add ::
  "(nat \<Rightarrow> character) \<Rightarrow> bqueue \<Rightarrow> nat \<Rightarrow> error + bqueue" where
  "RestrictedBattleQueue_add cs q c =
     (case added_yes_count (content q) (can_add q) c of
        Inl e \<Rightarrow> Inl e
      | Inr n \<Rightarrow>
          (case
             (if content q = [] then
                Inr ((BattleQueue_add cs q c)\<lparr>can_add := can_add q @ [''yes'']\<rparr>)
              else (case can_add q of
                      [] \<Rightarrow> Inl IndexError
                    | f # fs \<Rightarrow>
                        if f = ''no'' then Inr q
                        else if c \<notin> set (content q) then
                          Inr ((BattleQueue_add cs q c)\<lparr>can_add := can_add q @ [''yes'']\<rparr>)
                        else if Some c = (case content q of [] \<Rightarrow> None | x # xs \<Rightarrow> Some x)
                                \<and> n \<noteq> 2 then
                          Inr ((BattleQueue_add cs q c)\<lparr>can_add := can_add q @ [''yes'']\<rparr>)
                        else
                          Inr ((BattleQueue_add cs q c)\<lparr>can_add := can_add q @ [''no'']\<rparr>)))
           of
             Inl e \<Rightarrow> Inl e
           | Inr q1 \<Rightarrow>
               Inr (if p1 q1 = None then q1\<lparr>p1 := Some c, p2 := enemy (cs c)\<rparr> else q1)))"

text \<open>Python's \<open>xs[start:]\<close>; a negative start counts from the end.\<close>

definition slice_from :: "int \<Rightarrow> 'a list \<Rightarrow> 'a list" where
  "slice_from start xs =
     (if start < 0 then drop (nat (max 0 (int (length xs) + start))) xs
      else drop (nat start) xs)"

definition RestrictedBattleQueue_remove ::
  "(nat \<Rightarrow> character) \<Rightarrow> bqueue \<Rightarrow> error + (nat \<times> bqueue)" where
  "RestrictedBattleQueue_remove cs q =
     (let q1 = clean_queue cs q;
          len = int (length (content q1));
          start = 1 + (int (length (can_add q1)) - len);
          q2 = q1\<lparr>can_add := slice_from start (can_add q1)\<rparr>
      in BattleQueue_remove cs q2)"

text \<open>Method dispatch on the class of the queue object.\<close>

definition add :: "(nat \<Rightarrow> character) \<Rightarrow> bqueue \<Rightarrow> nat \<Rightarrow> error + bqueue" where
  "add cs q c =
     (case qclass q of
        BattleQueue \<Rightarrow> Inr (BattleQueue_add cs q c)
      | RestrictedBattleQueue \<Rightarrow> RestrictedBattleQueue_add cs q c)"

definition remove_head :: "(nat \<Rightarrow> character) \<Rightarrow> bqueue \<Rightarrow> error + (nat \<times> bqueue)" where
  "remove_head cs q =
     (case qclass q of
        BattleQueue \<Rightarrow> BattleQueue_remove cs q
      | RestrictedBattleQueue \<Rightarrow> RestrictedBattleQueue_remove cs q)"

text \<open>The loop \<open>while not bq.is_empty(): bq.remove()\<close> of \<open>SorcererSpecial.use\<close>.\<close>

lemma length_clean: "length (clean cs xs) \<le> length xs"
  by (induction xs) auto

lemma BattleQueue_remove_shrinks:
  "BattleQueue_remove cs q = Inr (x, q') \<Longrightarrow> length (content q') < length (content q)"
  using length_clean [of cs "content q"]
  by (auto simp: BattleQueue_remove_def clean_queue_def Let_def split: list.splits)

lemma remove_head_shrinks:
  "remove_head cs q = Inr (x, q') \<Longrightarrow> length (content q') < length (content q)"
  using length_clean [of cs "content q"]
  by (auto simp: remove_head_def RestrictedBattleQueue_remove_def Let_def clean_queue_def
      dest!: BattleQueue_remove_shrinks split: qclass.splits)

lemma is_empty_length:
  "is_empty cs q = (b, q') \<Longrightarrow> length (content q') \<le> length (content q)"
  using length_clean [of cs "content q"]
  by (auto simp: is_empty_def clean_queue_def Let_def)

function drain :: "(nat \<Rightarrow> character) \<Rightarrow> bqueue \<Rightarrow> error + bqueue" where
  "drain cs q =
     (case is_empty cs q of
        (True, q1) \<Rightarrow> Inr q1
      | (False, q1) \<Rightarrow>
          (case remove_head cs q1 of
             Inl e \<Rightarrow> Inl e
           | Inr (x, q2) \<Rightarrow> drain cs q2))"
  by pat_completeness auto
termination
proof (relation "measure (\<lambda>(cs, q). length (content q))")
  show "wf (measure (\<lambda>(cs, q). length (content q)))" by simp
next
  fix cs q b q1 r x q2
  assume e: "(b, q1) = is_empty cs q" and r: "remove_head cs q1 = Inr r" and p: "(x, q2) = r"
  from e have "length (content q1) \<le> length (content q)"
    using is_empty_length [of cs q b q1] by simp
  moreover from r p have "length (content q2) < length (content q1)"
    using remove_head_shrinks [of cs q1 x q2] by simp
  ultimately show "((cs, q2), (cs, q)) \<in> measure (\<lambda>(cs, q). length (content q))"
    by simp
qed

section \<open>The heap: character objects and queue objects\<close>

record heap =
  chars :: "nat \<Rightarrow> character"
  queues :: "nat \<Rightarrow> bqueue"
  next_char :: nat
  next_queue :: nat

definition set_queue :: "heap \<Rightarrow> nat \<Rightarrow> bqueue \<Rightarrow> heap" where
  "set_queue h qa q = h\<lparr>queues := (queues h)(qa := q)\<rparr>"

definition set_char :: "heap \<Rightarrow> nat \<Rightarrow> character \<Rightarrow> heap" where
  "set_char h a c = h\<lparr>chars := (chars h)(a := c)\<rparr>"

text \<open>Calling a queue method on the queue object at address \<open>qa\<close>.\<close>

definition h_add :: "heap \<Rightarrow> nat \<Rightarrow> nat \<Rightarrow> error + heap" where
  "h_add h qa c =
     (case add (chars h) (queues h qa) c of
        Inl e \<Rightarrow> Inl e
      | Inr q \<Rightarrow> Inr (set_queue h qa q))"

definition h_remove :: "heap \<Rightarrow> nat \<Rightarrow> error + (nat \<times> heap)" where
  "h_remove h qa =
     (case remove_head (chars h) (queues h qa) of
        Inl e \<Rightarrow> Inl e
      | Inr (x, q) \<Rightarrow> Inr (x, set_queue h qa q))"

definition h_peek :: "heap \<Rightarrow> nat \<Rightarrow> nat option \<times> heap" where
  "h_peek h qa = (case peek (chars h) (queues h qa) of (r, q) \<Rightarrow> (r, set_queue h qa q))"

definition h_is_empty :: "heap \<Rightarrow> nat \<Rightarrow> bool \<times> heap" where
  "h_is_empty h qa = (case is_empty (chars h) (queues h qa) of (r, q) \<Rightarrow> (r, set_queue h qa q))"

definition h_is_over :: "heap \<Rightarrow> nat \<Rightarrow> error + (bool \<times> heap)" where
  "h_is_over h qa =
     (case is_over (chars h) (queues h qa) of
        Inl e \<Rightarrow> Inl e
      | Inr (r, q) \<Rightarrow> Inr (r, set_queue h qa q))"

definition h_get_winner :: "heap \<Rightarrow> nat \<Rightarrow> error + (nat option \<times> heap)" where
  "h_get_winner h qa =
     (case get_winner (chars h) (queues h qa) of
        Inl e \<Rightarrow> Inl e
      | Inr (r, q) \<Rightarrow> Inr (r, set_queue h qa q))"

text \<open>The setters and mutators of \<open>Character\<close>.\<close>

definition reduce_sp :: "heap \<Rightarrow> nat \<Rightarrow> int \<Rightarrow> heap" where
  "reduce_sp h a cost = set_char h a ((chars h a)\<lparr>sp := sp (chars h a) - cost\<rparr>)"

definition apply_damage :: "heap \<Rightarrow> nat \<Rightarrow> int \<Rightarrow> heap" where
  "apply_damage h a damage =
     (let c = chars h a;
          d = damage - defense (ctype c);
          hp1 = hp c - d
      in set_char h a (c\<lparr>hp := max hp1 0\<rparr>))"

definition set_sp :: "heap \<Rightarrow> nat \<Rightarrow> int \<Rightarrow> heap" where
  "set_sp h a v = set_char h a ((chars h a)\<lparr>sp := v\<rparr>)"

definition set_hp :: "heap \<Rightarrow> nat \<Rightarrow> int \<Rightarrow> heap" where
  "set_hp h a v = set_char h a ((chars h a)\<lparr>hp := v\<rparr>)"

text \<open>\<open>Skill._deal_damage\<close> and the \<open>use\<close> method of each skill class.\<close>

definition deal_damage :: "skill \<Rightarrow> heap \<Rightarrow> nat \<Rightarrow> nat \<Rightarrow> heap" where
  "deal_damage s h caster target =
     apply_damage (reduce_sp h caster (get_sp_cost s)) target (skill_damage s)"

definition NormalAttack_use :: "skill \<Rightarrow> heap \<Rightarrow> nat \<Rightarrow> nat \<Rightarrow> error + heap" where
  "NormalAttack_use s h caster target =
     (let h1 = deal_damage s h caster target
      in h_add h1 (battle_queue (chars h1 caster)) caster)"

definition bindE :: "error + 'a \<Rightarrow> ('a \<Rightarrow> error + 'b) \<Rightarrow> error + 'b" where
  "bindE m f = (case m of Inl e \<Rightarrow> Inl e | Inr x \<Rightarrow> f x)"

definition h_drain :: "heap \<Rightarrow> nat \<Rightarrow> error + heap" where
  "h_drain h qa =
     (case drain (chars h) (queues h qa) of
        Inl e \<Rightarrow> Inl e
      | Inr q \<Rightarrow> Inr (set_queue h qa q))"

fun use :: "skill \<Rightarrow> heap \<Rightarrow> nat \<Rightarrow> nat \<Rightarrow> error + heap" where
  "use MageAttack h caster target = NormalAttack_use MageAttack h caster target"
| "use RogueAttack h caster target = NormalAttack_use RogueAttack h caster target"
| "use MageSpecial h caster target =
     (let h1 = deal_damage MageSpecial h caster target
      in bindE (h_add h1 (battle_queue (chars h1 caster)) target)
           (\<lambda>h2. h_add h2 (battle_queue (chars h2 caster)) caster))"
| "use RogueSpecial h caster target =
     (let h1 = deal_damage RogueSpecial h caster target
      in bindE (h_add h1 (battle_queue (chars h1 caster)) caster)
           (\<lambda>h2. h_add h2 (battle_queue (chars h2 caster)) caster))"
| "use VampireAttack h caster target =
     (let former_hp = hp (chars h target)
      in bindE (NormalAttack_use VampireAttack h caster target)
           (\<lambda>h1. let aftermath_hp = hp (chars h1 target)
                 in Inr (set_hp h1 caster (hp (chars h1 caster) + (former_hp - aftermath_hp)))))"
| "use VampireSpecial h caster target =
     (let former_hp = hp (chars h target);
          h1 = deal_damage VampireSpecial h caster target;
          aftermath_hp = hp (chars h1 target);
          h2 = set_hp h1 caster (hp (chars h1 caster) + (former_hp - aftermath_hp))
      in bindE (h_add h2 (battle_queue (chars h2 caster)) caster)
           (\<lambda>h3. bindE (h_add h3 (battle_queue (chars h3 caster)) caster)
              (\<lambda>h4. h_add h4 (battle_queue (chars h4 caster)) target)))"
| "use SorcererAttack h caster target =
     (let former_hp = hp (chars h target);
          h1 = deal_damage SorcererAttack h caster target
      in Inr (set_hp h1 target former_hp))"
| "use SorcererSpecial h caster target =
     bindE (h_drain h (battle_queue (chars h caster)))
       (\<lambda>h0. let h1 = deal_damage SorcererSpecial h0 caster target
             in bindE (h_add h1 (battle_queue (chars h1 caster)) caster)
                  (\<lambda>h2. bindE (h_add h2 (battle_queue (chars h2 caster)) target)
                     (\<lambda>h3. h_add h3 (battle_queue (chars h3 caster)) caster)))"

text \<open>\<open>SkillDecisionTree.pick_skill_helper\<close> and \<open>pick_skill\<close>.\<close>

fun pick_skill_helper :: "sdt \<Rightarrow> character \<Rightarrow> character \<Rightarrow> sdt list" where
  "pick_skill_helper (SkillDecisionTree v c p ch) caster target =
     (if \<not> c (hp caster) (sp caster) (hp target) (sp target) \<or> ch = []
      then [SkillDecisionTree v c p ch]
      else concat (map (\<lambda>child. pick_skill_helper child caster target) ch))"

definition pick_skill :: "sdt \<Rightarrow> character \<Rightarrow> character \<Rightarrow> error + skill" where
  "pick_skill t caster target =
     (case pick_skill_helper t caster target of
        [] \<Rightarrow> Inl IndexError
      | first_skill # rest \<Rightarrow>
          Inr (sdt_value
                 (fold (\<lambda>skill best. if sdt_priority skill < sdt_priority best then skill else best)
                    (first_skill # rest) first_skill)))"

text \<open>
  \<open>Character.attack\<close>, overridden by \<open>Sorcerer.attack\<close>, and
  \<open>Character.special_attack\<close>.  With no enemy bound every skill raises
  AttributeError on its first access to the target.
\<close>

definition attack :: "heap \<Rightarrow> nat \<Rightarrow> error + heap" where
  "attack h a =
     (case enemy (chars h a) of
        None \<Rightarrow> Inl AttributeError
      | Some t \<Rightarrow>
          (case ctype (chars h a) of
             Mage \<Rightarrow> use MageAttack h a t
           | Rogue \<Rightarrow> use RogueAttack h a t
           | Vampire \<Rightarrow> use VampireAttack h a t
           | Sorcerer \<Rightarrow>
               (let former_sp = sp (chars h a)
                in case decision_tree (chars h a) of
                     None \<Rightarrow> Inl AttributeError
                   | Some tree \<Rightarrow>
                       bindE (pick_skill tree (chars h a) (chars h t))
                         (\<lambda>s. bindE (use s h a t)
                            (\<lambda>h1. use SorcererAttack (set_sp h1 a former_sp) a t)))))"

definition special_attack :: "heap \<Rightarrow> nat \<Rightarrow> error + heap" where
  "special_attack h a =
     (case enemy (chars h a) of
        None \<Rightarrow> Inl AttributeError
      | Some t \<Rightarrow>
          (case ctype (chars h a) of
             Mage \<Rightarrow> use MageSpecial h a t
           | Rogue \<Rightarrow> use RogueSpecial h a t
           | Vampire \<Rightarrow> use VampireSpecial h a t
           | Sorcerer \<Rightarrow> use SorcererSpecial h a t))"

section \<open>Copying (Character.copy, BattleQueue.copy, RestrictedBattleQueue.copy)\<close>

text \<open>
  \<open>copy\<close> of each character class builds a new object of the same class bound
  to the new queue, with no enemy yet, and \<open>_set_copy_attributes\<close> sets its hp and
  sp (and, for a Sorcerer, its decision tree).  The new object takes the next
  free address.
\<close>

definition Character_copy :: "heap \<Rightarrow> nat \<Rightarrow> nat \<Rightarrow> nat \<times> heap" where
  "Character_copy h a new_battle_queue =
     (let c = chars h a;
          n = next_char h;
          copy = \<lparr>ctype = ctype c, hp = hp c, sp = sp c, enemy = None,
                  battle_queue = new_battle_queue,
                  decision_tree = (if ctype c = Sorcerer then decision_tree c else None)\<rparr>
      in (n, (set_char h n copy)\<lparr>next_char := Suc n\<rparr>))"

definition new_queue :: "heap \<Rightarrow> bqueue \<Rightarrow> nat \<times> heap" where
  "new_queue h q = (let n = next_queue h in (n, (set_queue h n q)\<lparr>next_queue := Suc n\<rparr>))"

definition set_enemy :: "heap \<Rightarrow> nat \<Rightarrow> nat \<Rightarrow> heap" where
  "set_enemy h a e = set_char h a ((chars h a)\<lparr>enemy := Some e\<rparr>)"

definition BattleQueue_copy :: "heap \<Rightarrow> nat \<Rightarrow> error + (nat \<times> heap)" where
  "BattleQueue_copy h qa =
     (let self = queues h qa;
          (nq, h1) = new_queue h BattleQueue_init
      in case p1 self of
           None \<Rightarrow> Inl AttributeError
         | Some a1 \<Rightarrow>
             (let (p1_copy, h2) = Character_copy h1 a1 nq
              in case p2 self of
                   None \<Rightarrow> Inl AttributeError
                 | Some a2 \<Rightarrow>
                     (let (p2_copy, h3) = Character_copy h2 a2 nq;
                          h4 = set_enemy h3 p1_copy p2_copy;
                          h5 = set_enemy h4 p2_copy p1_copy;
                          h6 = set_queue h5 nq (BattleQueue_add (chars h5) (queues h5 nq) p1_copy);
                          (e, h7) = h_is_empty h6 nq
                      in bindE (if \<not> e
                                then (case BattleQueue_remove (chars h7) (queues h7 nq) of
                                        Inl err \<Rightarrow> Inl err
                                      | Inr (x, q) \<Rightarrow> Inr (set_queue h7 nq q))
                                else Inr h7)
                           (\<lambda>h8. Inr (nq,
                              fold (\<lambda>character h'.
                                      set_queue h' nq
                                        (BattleQueue_add (chars h') (queues h' nq)
                                           (if character = a1 then p1_copy else p2_copy)))
                                (content self) h8)))))"

definition RestrictedBattleQueue_copy :: "heap \<Rightarrow> nat \<Rightarrow> error + (nat \<times> heap)" where
  "RestrictedBattleQueue_copy h qa =
     (let self = queues h qa;
          (nq, h1) = new_queue h RestrictedBattleQueue_init
      in case p1 self of
           None \<Rightarrow> Inl AttributeError
         | Some a1 \<Rightarrow>
             (let (p1_copy, h2) = Character_copy h1 a1 nq
              in case p2 self of
                   None \<Rightarrow> Inl AttributeError
                 | Some a2 \<Rightarrow>
                     (let (p2_copy, h3) = Character_copy h2 a2 nq;
                          h4 = set_enemy h3 p1_copy p2_copy;
                          h5 = set_enemy h4 p2_copy p1_copy;
                          our_list = map (\<lambda>character. if character = a1 then p1_copy else p2_copy)
                                       (content self);
                          our_can_add = can_add self
                      in Inr (nq, set_queue h5 nq
                                ((queues h5 nq)\<lparr>p1 := Some p1_copy, p2 := Some p2_copy,
                                   content := our_list, can_add := our_can_add\<rparr>)))))"

definition copy :: "heap \<Rightarrow> nat \<Rightarrow> error + (nat \<times> heap)" where
  "copy h qa =
     (case qclass (queues h qa) of
        BattleQueue \<Rightarrow> BattleQueue_copy h qa
      | RestrictedBattleQueue \<Rightarrow> RestrictedBattleQueue_copy h qa)"

section \<open>Sequences of queue operations\<close>

text \<open>
  The public operations of a queue that need no allocation.  The characters may
  change between two calls, so each call comes with the character store it sees.
\<close>

datatype qop = Add nat | Remove | Peek | IsEmpty | IsOver

fun run_op :: "(nat \<Rightarrow> character) \<Rightarrow> qop \<Rightarrow> bqueue \<Rightarrow> error + bqueue" where
  "run_op cs (Add c) q = add cs q c"
| "run_op cs Remove q = (case remove_head cs q of Inl e \<Rightarrow> Inl e | Inr (x, q') \<Rightarrow> Inr q')"
| "run_op cs Peek q = Inr (snd (peek cs q))"
| "run_op cs IsEmpty q = Inr (snd (is_empty cs q))"
| "run_op cs IsOver q = (case is_over cs q of Inl e \<Rightarrow> Inl e | Inr (b, q') \<Rightarrow> Inr q')"

fun run_ops :: "((nat \<Rightarrow> character) \<times> qop) list \<Rightarrow> bqueue \<Rightarrow> error + bqueue" where
  "run_ops [] q = Inr q"
| "run_ops ((cs, op) # rest) q =
     (case run_op cs op q of Inl e \<Rightarrow> Inl e | Inr q' \<Rightarrow> run_ops rest q')"

fun first_added :: "((nat \<Rightarrow> character) \<times> qop) list \<Rightarrow> nat option" where
  "first_added [] = None"
| "first_added ((cs, Add c) # rest) = Some c"
| "first_added ((cs, op) # rest) = first_added rest"

fun add_each :: "(nat \<Rightarrow> character) \<Rightarrow> bqueue \<Rightarrow> nat list \<Rightarrow> error + bqueue" where
  "add_each cs q [] = Inr q"
| "add_each cs q (c # rest) =
     (case RestrictedBattleQueue_add cs q c of
        Inl e \<Rightarrow> Inl e
      | Inr q' \<Rightarrow> add_each cs q' rest)"

text \<open>
  The state of the queue object that \<open>RestrictedBattleQueue.copy\<close> returns, as a
  function of the state of the original and of the addresses of the two new
  characters.
\<close>

definition copied :: "bqueue \<Rightarrow> nat \<Rightarrow> nat \<Rightarrow> nat \<Rightarrow> bqueue" where
  "copied q a1 p1_copy p2_copy =
     RestrictedBattleQueue_init\<lparr>p1 := Some p1_copy, p2 := Some p2_copy,
        content := map (\<lambda>character. if character = a1 then p1_copy else p2_copy) (content q),
        can_add := can_add q\<rparr>"

text \<open>
  The states a RestrictedBattleQueue object can be in: those reached from a new
  queue by add, remove, peek, is\_empty, is\_over, and the state of a copy of such a
  queue.
\<close>

inductive reachable :: "bqueue \<Rightarrow> bool" where
  r_init: "reachable RestrictedBattleQueue_init"
| r_add: "reachable q \<Longrightarrow> RestrictedBattleQueue_add cs q c = Inr q' \<Longrightarrow> reachable q'"
| r_remove: "reachable q \<Longrightarrow> RestrictedBattleQueue_remove cs q = Inr (x, q') \<Longrightarrow> reachable q'"
| r_peek: "reachable q \<Longrightarrow> peek cs q = (r, q') \<Longrightarrow> reachable q'"
| r_is_empty: "reachable q \<Longrightarrow> is_empty cs q = (b, q') \<Longrightarrow> reachable q'"
| r_is_over: "reachable q \<Longrightarrow> is_over cs q = Inr (b, q') \<Longrightarrow> reachable q'"
| r_copy: "reachable q \<Longrightarrow> p1 q = Some a1 \<Longrightarrow> p2 q = Some a2 \<Longrightarrow> reachable (copied q a1 c1 c2)"

text \<open>
  What every reachable state has: the ledger is at least as long as the sequence,
  and a non-empty sequence has its first participant set.
\<close>

definition ledger_covers :: "bqueue \<Rightarrow> bool" where
  "ledger_covers q \<longleftrightarrow>
     length (content q) \<le> length (can_add q) \<and> (content q \<noteq> [] \<longrightarrow> p1 q \<noteq> None)"

text \<open>
  The number of occurrences of a character that the ledger marks eligible, entry
  \<open>i\<close> of the ledger read as describing entry \<open>i\<close> of the sequence, and the same
  with the ledger read from its end (the entries \<open>remove\<close> would keep).
\<close>

definition eligible_occurrences :: "bqueue \<Rightarrow> nat \<Rightarrow> nat" where
  "eligible_occurrences q c =
     length (filter (\<lambda>(x, f). x = c \<and> f = ''yes'') (zip (content q) (can_add q)))"

definition eligible_occurrences_from_end :: "bqueue \<Rightarrow> nat \<Rightarrow> nat" where
  "eligible_occurrences_from_end q c =
     length (filter (\<lambda>(x, f). x = c \<and> f = ''yes'')
               (zip (content q) (drop (length (can_add q) - length (content q)) (can_add q))))"

section \<open>Concrete characters and queues\<close>

text \<open>\<open>Character.__init__\<close>: a new character of the given class, bound to a queue.\<close>

definition Character_init :: "ctype \<Rightarrow> nat \<Rightarrow> character" where
  "Character_init t bq =
     \<lparr>ctype = t, hp = 100, sp = 100, enemy = None, battle_queue = bq, decision_tree = None\<rparr>"

text \<open>
  Two Rogues at addresses 0 and 1, each the enemy of the other, bound to the
  queue at address 0, with the given hp and sp (as after \<open>set_hp\<close>, \<open>set_sp\<close>).
\<close>

definition two_rogues :: "int \<Rightarrow> int \<Rightarrow> int \<Rightarrow> int \<Rightarrow> nat \<Rightarrow> character" where
  "two_rogues hp0 sp0 hp1 sp1 a =
     (if a = 0 then (Character_init Rogue 0)\<lparr>hp := hp0, sp := sp0, enemy := Some 1\<rparr>
      else (Character_init Rogue 0)\<lparr>hp := hp1, sp := sp1, enemy := Some 0\<rparr>)"

definition fresh_store :: "nat \<Rightarrow> character" where
  "fresh_store = two_rogues 100 100 100 100"

definition tired_store :: "nat \<Rightarrow> character" where
  "tired_store = two_rogues 100 0 100 100"

definition both_down :: "nat \<Rightarrow> character" where
  "both_down = two_rogues 0 100 0 100"

definition one_down :: "nat \<Rightarrow> character" where
  "one_down = two_rogues 40 100 0 100"

definition duel :: bqueue where
  "duel = \<lparr>qclass = BattleQueue, content = [0, 1], p1 = Some 0, p2 = Some 1, can_add = []\<rparr>"

definition drained :: bqueue where
  "drained = \<lparr>qclass = BattleQueue, content = [], p1 = Some 0, p2 = Some 1, can_add = []\<rparr>"

definition rejecting_queue :: bqueue where
  "rejecting_queue =
     \<lparr>qclass = RestrictedBattleQueue, content = [0], p1 = Some 0, p2 = Some 1,
      can_add = [''no'']\<rparr>"

section \<open>The minimax playstyles (a2\_playstyle.py)\<close>

text \<open>
  The block that every engine runs on a copy of the queue, for the move \<open>a\<close>:
  \<^verbatim>\<open>
  player = copy.peek()
  if copy.peek().is_valid_action(a):
      copy.peek().attack()            # special_attack() for 'S'
      if copy.peek().get_available_actions() != []:
          copy.remove()
      current_player = copy.peek()
  \<close>
  \<open>play\<close> is the body of the \<open>if\<close>; \<open>explore\<close> is the block.  It returns none
  when the move is not valid, and otherwise whether \<open>player == current_player\<close>.
\<close>

definition play :: "heap \<Rightarrow> nat \<Rightarrow> string \<Rightarrow> error + heap" where
  "play h qa a =
     (case h_peek h qa of
        (None, h1) \<Rightarrow> Inl AttributeError
      | (Some c, h1) \<Rightarrow>
          (case (if a = ''A'' then attack h1 c else special_attack h1 c) of
             Inl e \<Rightarrow> Inl e
           | Inr h2 \<Rightarrow>
               (case h_peek h2 qa of
                  (None, h3) \<Rightarrow> Inl AttributeError
                | (Some c', h3) \<Rightarrow>
                    if get_available_actions (chars h3 c') \<noteq> []
                    then (case h_remove h3 qa of
                            Inl e \<Rightarrow> Inl e
                          | Inr (x, h4) \<Rightarrow> Inr h4)
                    else Inr h3)))"

definition explore :: "heap \<Rightarrow> nat \<Rightarrow> string \<Rightarrow> error + (bool option \<times> heap)" where
  "explore h qa a =
     (case h_peek h qa of
        (player, h1) \<Rightarrow>
          (case h_peek h1 qa of
             (None, h2) \<Rightarrow> Inl AttributeError
           | (Some c, h2) \<Rightarrow>
               if is_valid_action (chars h2 c) a then
                 (case play h2 qa a of
                    Inl e \<Rightarrow> Inl e
                  | Inr h3 \<Rightarrow>
                      (case h_peek h3 qa of
                         (current_player, h4) \<Rightarrow> Inr (Some (player = current_player), h4)))
               else Inr (None, h2)))"

text \<open>The score of a state that is over (both engines compute it the same way).\<close>

definition terminal_score :: "heap \<Rightarrow> nat \<Rightarrow> error + int" where
  "terminal_score h qa =
     (case h_get_winner h qa of
        Inl e \<Rightarrow> Inl e
      | Inr (None, h1) \<Rightarrow> Inr 0
      | Inr (Some w, h1) \<Rightarrow>
          (case h_get_winner h1 qa of
             Inl e \<Rightarrow> Inl e
           | Inr (w2, h2) \<Rightarrow>
               (case h_peek h2 qa of
                  (pk, h3) \<Rightarrow>
                    if w2 = pk then
                      (case h_peek h3 qa of
                         (None, h4) \<Rightarrow> Inl AttributeError
                       | (Some c, h4) \<Rightarrow> Inr (hp (chars h4 c)))
                    else
                      (case h_get_winner h3 qa of
                         Inl e \<Rightarrow> Inl e
                       | Inr (None, h4) \<Rightarrow> Inl AttributeError
                       | Inr (Some w3, h4) \<Rightarrow> Inr (-1 * hp (chars h4 w3))))))"

text \<open>\<open>x if same else -1 * x\<close>, for the result of a call that may have raised.\<close>

definition signed :: "bool \<Rightarrow> error + int \<Rightarrow> error + int" where
  "signed same r = (case r of Inl e \<Rightarrow> Inl e | Inr s \<Rightarrow> Inr (if same then s else -1 * s))"

text \<open>
  \<open>get_state_score\<close>.  The result is none when the recursion does not end.  A
  recursive call works on a copy that its caller does not use again, and no object
  is shared between copies, so the heap it leaves behind is not threaded on: the
  second branch starts from the heap in which the first branch made its move.
\<close>

partial_function (option) get_state_score :: "heap \<Rightarrow> nat \<Rightarrow> (error + int) option" where
  "get_state_score h bq =
     (case h_is_over h bq of
        Inl e \<Rightarrow> Some (Inl e)
      | Inr (over, h1) \<Rightarrow>
          if over then Some (terminal_score h1 bq)
          else
          (case copy h1 bq of
             Inl e \<Rightarrow> Some (Inl e)
           | Inr (bq_copy1, h2) \<Rightarrow>
               (case copy h2 bq of
                  Inl e \<Rightarrow> Some (Inl e)
                | Inr (bq_copy2, h3) \<Rightarrow>
                    (case explore h3 bq_copy1 ''S'' of
                       Inl e \<Rightarrow> Some (Inl e)
                     | Inr (r1, h4) \<Rightarrow>
                         Option.bind
                           (case r1 of
                              None \<Rightarrow> Some (Inr (- 42423232424))
                            | Some same \<Rightarrow>
                                Option.bind (get_state_score h4 bq_copy1)
                                  (\<lambda>r. Some (signed same r)))
                           (\<lambda>c1. case c1 of
                                   Inl e \<Rightarrow> Some (Inl e)
                                 | Inr copy1_score \<Rightarrow>
                                     (case explore h4 bq_copy2 ''A'' of
                                        Inl e \<Rightarrow> Some (Inl e)
                                      | Inr (r2, h5) \<Rightarrow>
                                          Option.bind
                                            (case r2 of
                                               None \<Rightarrow> Some (Inr (- 64545353434))
                                             | Some same \<Rightarrow>
                                                 Option.bind (get_state_score h5 bq_copy2)
                                                   (\<lambda>r. Some (signed same r)))
                                            (\<lambda>c2. case c2 of
                                                    Inl e \<Rightarrow> Some (Inl e)
                                                  | Inr copy2_score \<Rightarrow>
                                                      Some (Inr (max copy2_score copy1_score)))))))))"

text \<open>The last two lines of both \<open>select_attack\<close> methods.\<close>

definition best_label :: "int \<Rightarrow> int \<Rightarrow> string" where
  "best_label copy1_score copy2_score =
     (let best_score = max copy2_score copy1_score
      in if best_score = copy1_score then ''A''
         else if best_score = copy2_score then ''S'' else ''X'')"

text \<open>
  \<open>select_attack\<close> of RecursiveMinimax and of IterativeMinimax differ only in the
  function they call for the score of a copy; \<open>score\<close> is that function.
  \<open>copy_scores\<close> is the method up to its last two lines: it returns
  \<open>copy1_score\<close> (move \<open>'A'\<close>) and \<open>copy2_score\<close> (move \<open>'S'\<close>), each with
  whether the move was valid, that is, whether the score was computed rather than
  left at its initial value.
\<close>

definition copy_scores ::
  "(heap \<Rightarrow> nat \<Rightarrow> (error + int) option) \<Rightarrow> heap \<Rightarrow> nat
     \<Rightarrow> (error + (int \<times> bool) \<times> (int \<times> bool)) option" where
  "copy_scores score h bq =
     (case copy h bq of
        Inl e \<Rightarrow> Some (Inl e)
      | Inr (copy1, h1) \<Rightarrow>
          (case copy h1 bq of
             Inl e \<Rightarrow> Some (Inl e)
           | Inr (copy2, h2) \<Rightarrow>
               (case explore h2 copy1 ''A'' of
                  Inl e \<Rightarrow> Some (Inl e)
                | Inr (r1, h3) \<Rightarrow>
                    Option.bind
                      (case r1 of
                         None \<Rightarrow> Some (Inr (- 5445543))
                       | Some same \<Rightarrow>
                           Option.bind (score h3 copy1) (\<lambda>r. Some (signed same r)))
                      (\<lambda>c1. case c1 of
                              Inl e \<Rightarrow> Some (Inl e)
                            | Inr copy1_score \<Rightarrow>
                                (case explore h3 copy2 ''S'' of
                                   Inl e \<Rightarrow> Some (Inl e)
                                 | Inr (r2, h4) \<Rightarrow>
                                     Option.bind
                                       (case r2 of
                                          None \<Rightarrow> Some (Inr (- 6476444))
                                        | Some same \<Rightarrow>
                                            Option.bind (score h4 copy2)
                                              (\<lambda>r. Some (signed same r)))
                                       (\<lambda>c2. case c2 of
                                               Inl e \<Rightarrow> Some (Inl e)
                                             | Inr copy2_score \<Rightarrow>
                                                 Some (Inr ((copy1_score, r1 \<noteq> None),
                                                            (copy2_score, r2 \<noteq> None)))))))))"

definition select_attack_with ::
  "(heap \<Rightarrow> nat \<Rightarrow> (error + int) option) \<Rightarrow> heap \<Rightarrow> nat \<Rightarrow> (error + string) option" where
  "select_attack_with score h bq =
     (case copy_scores score h bq of
        None \<Rightarrow> None
      | Some (Inl e) \<Rightarrow> Some (Inl e)
      | Some (Inr ((copy1_score, valid1), (copy2_score, valid2))) \<Rightarrow>
          Some (Inr (best_label copy1_score copy2_score)))"

definition RecursiveMinimax_select_attack :: "heap \<Rightarrow> nat \<Rightarrow> (error + string) option" where
  "RecursiveMinimax_select_attack = select_attack_with get_state_score"

text \<open>
  The \<open>Tree\<close> class of the iterative engine.  Tree objects are mutated through
  the stack and through the children list of their parent, so they live in a store
  of their own; \<open>state\<close> is the address of a queue.
\<close>

record tree =
  state :: nat
  children :: "nat list option"
  score :: "int option"

record forest =
  nodes :: "nat \<Rightarrow> tree"
  next_node :: nat

definition Tree_init :: "forest \<Rightarrow> nat \<Rightarrow> nat \<times> forest" where
  "Tree_init f st =
     (let n = next_node f
      in (n, f\<lparr>nodes := (nodes f)(n := \<lparr>state = st, children = None, score = None\<rparr>),
               next_node := Suc n\<rparr>))"

definition set_children :: "forest \<Rightarrow> nat \<Rightarrow> nat list \<Rightarrow> forest" where
  "set_children f n cs = f\<lparr>nodes := (nodes f)(n := (nodes f n)\<lparr>children := Some cs\<rparr>)\<rparr>"

definition set_score :: "forest \<Rightarrow> nat \<Rightarrow> int \<Rightarrow> forest" where
  "set_score f n s = f\<lparr>nodes := (nodes f)(n := (nodes f n)\<lparr>score := Some s\<rparr>)\<rparr>"

text \<open>
  One of the two blocks of \<open>removed_helper\<close>: if the move is valid at the head of
  the node's state, a new Tree on a copy of the state, in which the move is made,
  is appended to the children of the node.
\<close>

definition expand_move ::
  "heap \<Rightarrow> forest \<Rightarrow> nat \<Rightarrow> string \<Rightarrow> error + (heap \<times> forest)" where
  "expand_move h f removed a =
     (case h_peek h (state (nodes f removed)) of
        (None, h1) \<Rightarrow> Inl AttributeError
      | (Some c, h1) \<Rightarrow>
          if is_valid_action (chars h1 c) a then
            (case copy h1 (state (nodes f removed)) of
               Inl e \<Rightarrow> Inl e
             | Inr (cq, h2) \<Rightarrow>
                 (case Tree_init f cq of
                    (copy1, f1) \<Rightarrow>
                      (case play h2 cq a of
                         Inl e \<Rightarrow> Inl e
                       | Inr h3 \<Rightarrow>
                           Inr (h3, set_children f1 removed
                                      (case children (nodes f1 removed) of
                                         None \<Rightarrow> [copy1]
                                       | Some cs \<Rightarrow> cs @ [copy1])))))
          else Inr (h1, f))"

definition removed_helper :: "heap \<Rightarrow> forest \<Rightarrow> nat \<Rightarrow> error + (heap \<times> forest)" where
  "removed_helper h f removed =
     (case expand_move h (set_children f removed []) removed ''A'' of
        Inl e \<Rightarrow> Inl e
      | Inr (h1, f1) \<Rightarrow> expand_move h1 f1 removed ''S'')"

text \<open>
  The list comprehension of the last branch of the loop: for each child,
  \<open>child.score if type(child.state.peek()) == type(player) else -1 * child.score\<close>.
  The type of a character is its class, the type of \<open>None\<close> is modelled by none.
  A child is scored before its parent is visited again; a child without a score
  would make the arithmetic or \<open>max\<close> raise TypeError.
\<close>

fun child_scores ::
  "heap \<Rightarrow> forest \<Rightarrow> ctype option \<Rightarrow> nat list \<Rightarrow> error + (int list \<times> heap)" where
  "child_scores h f player_type [] = Inr ([], h)"
| "child_scores h f player_type (child # rest) =
     (case h_peek h (state (nodes f child)) of
        (pk, h1) \<Rightarrow>
          (case score (nodes f child) of
             None \<Rightarrow> Inl TypeError
           | Some s \<Rightarrow>
               (case child_scores h1 f player_type rest of
                  Inl e \<Rightarrow> Inl e
                | Inr (ss, h2) \<Rightarrow>
                    Inr ((if map_option (\<lambda>a. ctype (chars h1 a)) pk = player_type
                          then s else -1 * s) # ss, h2))))"

text \<open>Python's \<open>max\<close> of a list.\<close>

definition max_list :: "int list \<Rightarrow> error + int" where
  "max_list xs = (case xs of [] \<Rightarrow> Inl ValueError | x # rest \<Rightarrow> Inr (fold max rest x))"

text \<open>
  The loop of \<open>iterative_get_score\<close>.  The stack is a list with its top first:
  \<open>stack.pop()\<close> takes the head, \<open>stack.append\<close> conses.  The result is none when
  the loop does not end.
\<close>

partial_function (option) iterate ::
  "heap \<Rightarrow> forest \<Rightarrow> nat list \<Rightarrow> (error + forest) option" where
  "iterate h f stack =
     (case stack of
        [] \<Rightarrow> Some (Inr f)
      | removed # rest \<Rightarrow>
          (case h_is_over h (state (nodes f removed)) of
             Inl e \<Rightarrow> Some (Inl e)
           | Inr (over, h1) \<Rightarrow>
               if over then
                 (case terminal_score h1 (state (nodes f removed)) of
                    Inl e \<Rightarrow> Some (Inl e)
                  | Inr s \<Rightarrow> iterate h1 (set_score f removed s) rest)
               else if children (nodes f removed) = None \<or> children (nodes f removed) = Some []
               then
                 (case removed_helper h1 f removed of
                    Inl e \<Rightarrow> Some (Inl e)
                  | Inr (h2, f2) \<Rightarrow>
                      iterate h2 f2
                        (rev (case children (nodes f2 removed) of None \<Rightarrow> [] | Some cs \<Rightarrow> cs)
                           @ removed # rest))
               else
                 (case h_peek h1 (state (nodes f removed)) of
                    (player, h2) \<Rightarrow>
                      (case child_scores h2 f (map_option (\<lambda>a. ctype (chars h2 a)) player)
                              (case children (nodes f removed) of None \<Rightarrow> [] | Some cs \<Rightarrow> cs) of
                         Inl e \<Rightarrow> Some (Inl e)
                       | Inr (ss, h3) \<Rightarrow>
                           (case max_list ss of
                              Inl e \<Rightarrow> Some (Inl e)
                            | Inr s \<Rightarrow> iterate h3 (set_score f removed s) rest)))))"

definition iterative_get_score :: "heap \<Rightarrow> nat \<Rightarrow> (error + int option) option" where
  "iterative_get_score h bq =
     (case copy h bq of
        Inl e \<Rightarrow> Some (Inl e)
      | Inr (c, h1) \<Rightarrow>
          (case Tree_init \<lparr>nodes = (\<lambda>n. \<lparr>state = 0, children = None, score = None\<rparr>),
                           next_node = 0\<rparr> c of
             (root, f) \<Rightarrow>
               (case iterate h1 f [root] of
                  None \<Rightarrow> None
                | Some (Inl e) \<Rightarrow> Some (Inl e)
                | Some (Inr f') \<Rightarrow> Some (Inr (score (nodes f' root))))))"

text \<open>
  A score of \<open>None\<close> makes \<open>-1 * score\<close>, or the \<open>max\<close> that follows, raise
  TypeError in \<open>select_attack\<close>.
\<close>

definition iterative_score :: "heap \<Rightarrow> nat \<Rightarrow> (error + int) option" where
  "iterative_score h bq =
     (case iterative_get_score h bq of
        None \<Rightarrow> None
      | Some (Inl e) \<Rightarrow> Some (Inl e)
      | Some (Inr None) \<Rightarrow> Some (Inl TypeError)
      | Some (Inr (Some s)) \<Rightarrow> Some (Inr s))"

definition IterativeMinimax_select_attack :: "heap \<Rightarrow> nat \<Rightarrow> (error + string) option" where
  "IterativeMinimax_select_attack = select_attack_with iterative_score"

section \<open>Heaps given by lists, and the heap after a copy\<close>

text \<open>
  A heap given by the list of its character objects and the list of its queue
  objects, the address of an object being its position.
\<close>

definition heap_of :: "character list \<Rightarrow> bqueue list \<Rightarrow> heap" where
  "heap_of cs qs =
     \<lparr>chars = (\<lambda>a. if a < length cs then cs ! a else Character_init Mage 0),
      queues = (\<lambda>q. if q < length qs then qs ! q else BattleQueue_init),
      next_char = length cs, next_queue = length qs\<rparr>"

text \<open>
  The heap after \<open>copy\<close>, written out: the two new characters take the next two
  character addresses, the new queue the next queue address; \<open>a1\<close> and \<open>a2\<close> are
  the participants of the queue that is copied.
\<close>

definition copied_character :: "character \<Rightarrow> nat \<Rightarrow> nat \<Rightarrow> character" where
  "copied_character c nq e =
     \<lparr>ctype = ctype c, hp = hp c, sp = sp c, enemy = Some e, battle_queue = nq,
      decision_tree = (if ctype c = Sorcerer then decision_tree c else None)\<rparr>"

definition copy_result :: "heap \<Rightarrow> nat \<Rightarrow> nat \<Rightarrow> nat \<Rightarrow> heap" where
  "copy_result h bq a1 a2 =
     (let n = next_char h; nq = next_queue h; self = queues h bq;
          c1 = copied_character (chars h a1) nq (Suc n);
          c2 = copied_character (if a2 = n then c1 else chars h a2) nq n
      in h\<lparr>chars := (chars h)(n := c1, Suc n := c2),
           queues := (queues h)(nq :=
             \<lparr>qclass = qclass self,
              content = map (\<lambda>character. if character = a1 then n else Suc n) (content self),
              p1 = Some n, p2 = Some (Suc n),
              can_add = (case qclass self of BattleQueue \<Rightarrow> []
                         | RestrictedBattleQueue \<Rightarrow> can_add self)\<rparr>),
           next_char := Suc (Suc n), next_queue := Suc nq\<rparr>)"

section \<open>Which objects an operation reads and writes\<close>

text \<open>
  The characters a queue object refers to, and what it means for a set \<open>A\<close> of
  character addresses and a set \<open>Q\<close> of queue addresses to be closed under the
  references stored in their objects.
\<close>

definition qrefs :: "bqueue \<Rightarrow> nat set" where
  "qrefs q = set (content q) \<union> set_option (p1 q) \<union> set_option (p2 q)"

definition region_closed :: "heap \<Rightarrow> nat set \<Rightarrow> nat set \<Rightarrow> bool" where
  "region_closed h A Q \<longleftrightarrow>
     (\<forall>a\<in>A. set_option (enemy (chars h a)) \<subseteq> A \<and> battle_queue (chars h a) \<in> Q)
     \<and> (\<forall>q\<in>Q. qrefs (queues h q) \<subseteq> A)"

definition same_outside :: "heap \<Rightarrow> heap \<Rightarrow> nat set \<Rightarrow> nat set \<Rightarrow> bool" where
  "same_outside h h' A Q \<longleftrightarrow>
     (\<forall>a. a \<notin> A \<longrightarrow> chars h' a = chars h a)
     \<and> (\<forall>q. q \<notin> Q \<longrightarrow> queues h' q = queues h q)
     \<and> next_char h' = next_char h \<and> next_queue h' = next_queue h"

text \<open>
  No operation on existing objects changes the class, the enemy, the queue or the
  decision tree of a character, nor the class of a queue, nor its participants
  once they are set.
\<close>

definition same_links :: "heap \<Rightarrow> heap \<Rightarrow> bool" where
  "same_links h h' \<longleftrightarrow>
     (\<forall>a. enemy (chars h' a) = enemy (chars h a)
          \<and> battle_queue (chars h' a) = battle_queue (chars h a)
          \<and> ctype (chars h' a) = ctype (chars h a)
          \<and> decision_tree (chars h' a) = decision_tree (chars h a))
     \<and> (\<forall>q. qclass (queues h' q) = qclass (queues h q)
            \<and> (p1 (queues h q) \<noteq> None \<longrightarrow>
                 p1 (queues h' q) = p1 (queues h q) \<and> p2 (queues h' q) = p2 (queues h q)))"

definition evolves :: "nat set \<Rightarrow> nat set \<Rightarrow> heap \<Rightarrow> heap \<Rightarrow> bool" where
  "evolves A Q h h' \<longleftrightarrow> region_closed h' A Q \<and> same_outside h h' A Q \<and> same_links h h'"

text \<open>The same for a single queue object: \<open>X\<close> bounds the references it gains.\<close>

definition qevolves :: "nat set \<Rightarrow> bqueue \<Rightarrow> bqueue \<Rightarrow> bool" where
  "qevolves X q q' \<longleftrightarrow>
     qclass q' = qclass q
     \<and> (p1 q \<noteq> None \<longrightarrow> p1 q' = p1 q \<and> p2 q' = p2 q)
     \<and> qrefs q' \<subseteq> qrefs q \<union> X"

section \<open>Concrete heaps\<close>

text \<open>A character with the given class, hp, sp and enemy, bound to the queue at address 0.\<close>

definition fighter :: "ctype \<Rightarrow> int \<Rightarrow> int \<Rightarrow> nat \<Rightarrow> character" where
  "fighter t h s e = (Character_init t 0)\<lparr>hp := h, sp := s, enemy := Some e\<rparr>"

definition rogues_at_odds :: heap where
  "rogues_at_odds = heap_of [fighter Rogue 5 10 1, fighter Rogue 10 3 0] [duel]"

definition rogue_last_hit :: heap where
  "rogue_last_hit =
     heap_of [fighter Rogue 5 7 1, fighter Rogue 5 3 0] [duel\<lparr>content := [1, 0]\<rparr>]"

definition spent_rogues :: heap where
  "spent_rogues = heap_of [fighter Rogue 100 0 1, fighter Rogue 100 0 0] [duel]"

definition vampire_draw :: heap where
  "vampire_draw = heap_of [fighter Vampire 100 20 1, fighter Rogue 100 0 0] [duel]"

definition fallen_rogues :: heap where
  "fallen_rogues = heap_of [fighter Rogue 0 100 1, fighter Rogue 0 100 0] [duel]"

section \<open>Moves and queue operations on a heap\<close>

text \<open>
  A move of a character or a call of a queue method, on objects of the heap.  An
  operation is within a set \<open>A\<close> of characters and a set \<open>Q\<close> of queues when its
  receiver and its argument are among them.
\<close>

datatype hop =
  Attack nat | SpecialAttack nat
  | QAdd nat nat | QRemove nat | QPeek nat | QIsEmpty nat | QIsOver nat | QGetWinner nat

fun run_hop :: "heap \<Rightarrow> hop \<Rightarrow> error + heap" where
  "run_hop h (Attack a) = attack h a"
| "run_hop h (SpecialAttack a) = special_attack h a"
| "run_hop h (QAdd q c) = h_add h q c"
| "run_hop h (QRemove q) = (case h_remove h q of Inl e \<Rightarrow> Inl e | Inr (x, h') \<Rightarrow> Inr h')"
| "run_hop h (QPeek q) = Inr (snd (h_peek h q))"
| "run_hop h (QIsEmpty q) = Inr (snd (h_is_empty h q))"
| "run_hop h (QIsOver q) = (case h_is_over h q of Inl e \<Rightarrow> Inl e | Inr (b, h') \<Rightarrow> Inr h')"
| "run_hop h (QGetWinner q) =
     (case h_get_winner h q of Inl e \<Rightarrow> Inl e | Inr (w, h') \<Rightarrow> Inr h')"

fun run_hops :: "heap \<Rightarrow> hop list \<Rightarrow> error + heap" where
  "run_hops h [] = Inr h"
| "run_hops h (op # ops) = (case run_hop h op of Inl e \<Rightarrow> Inl e | Inr h' \<Rightarrow> run_hops h' ops)"

fun within :: "nat set \<Rightarrow> nat set \<Rightarrow> hop \<Rightarrow> bool" where
  "within A Q (Attack a) \<longleftrightarrow> a \<in> A"
| "within A Q (SpecialAttack a) \<longleftrightarrow> a \<in> A"
| "within A Q (QAdd q c) \<longleftrightarrow> q \<in> Q \<and> c \<in> A"
| "within A Q (QRemove q) \<longleftrightarrow> q \<in> Q"
| "within A Q (QPeek q) \<longleftrightarrow> q \<in> Q"
| "within A Q (QIsEmpty q) \<longleftrightarrow> q \<in> Q"
| "within A Q (QIsOver q) \<longleftrightarrow> q \<in> Q"
| "within A Q (QGetWinner q) \<longleftrightarrow> q \<in> Q"

definition fresh_rogues :: heap where
  "fresh_rogues = heap_of [fighter Rogue 100 100 1, fighter Rogue 100 100 0] [duel]"

definition fresh_rogues_copied :: heap where
  "fresh_rogues_copied =
     heap_of [fighter Rogue 100 100 1, fighter Rogue 100 100 0,
              (fighter Rogue 100 100 3)\<lparr>battle_queue := 1\<rparr>,
              (fighter Rogue 100 100 2)\<lparr>battle_queue := 1\<rparr>]
             [duel, duel\<lparr>content := [2, 3], p1 := Some 2, p2 := Some 3\<rparr>]"

definition moved_on_copy :: heap where
  "moved_on_copy =
     heap_of [fighter Rogue 100 100 1, fighter Rogue 100 100 0,
              (fighter Rogue 90 97 3)\<lparr>battle_queue := 1\<rparr>,
              (fighter Rogue 95 90 2)\<lparr>battle_queue := 1\<rparr>]
             [duel, duel\<lparr>content := [3, 2, 3, 3], p1 := Some 2, p2 := Some 3\<rparr>]"

definition moved_on_original :: heap where
  "moved_on_original =
     heap_of [fighter Rogue 100 97 1, fighter Rogue 95 100 0,
              (fighter Rogue 100 100 3)\<lparr>battle_queue := 1\<rparr>,
              (fighter Rogue 100 100 2)\<lparr>battle_queue := 1\<rparr>]
             [duel\<lparr>content := [1, 0, 1]\<rparr>,
              duel\<lparr>content := [2, 3], p1 := Some 2, p2 := Some 3\<rparr>]"

section \<open>Well-formed games\<close>

text \<open>
  A queue of the heap that is a well-formed game: it has its two participants, the
  objects are allocated, and the two characters and the queue refer only to each
  other.  Every copy made by a minimax engine is one.
\<close>

definition well_formed :: "heap \<Rightarrow> nat \<Rightarrow> nat \<Rightarrow> nat \<Rightarrow> bool" where
  "well_formed h qa a1 a2 \<longleftrightarrow>
     p1 (queues h qa) = Some a1 \<and> p2 (queues h qa) = Some a2
     \<and> a1 < next_char h \<and> a2 < next_char h \<and> qa < next_queue h
     \<and> region_closed h {a1, a2} {qa}"

text \<open>The skill points the two participants have left.\<close>

definition sp_left :: "heap \<Rightarrow> nat \<Rightarrow> nat \<Rightarrow> nat" where
  "sp_left h a1 a2 = nat (sp (chars h a1)) + nat (sp (chars h a2))"

section \<open>Properties of the queue operations\<close>

lemma BattleQueue_add_fields:
  "content (BattleQueue_add cs q c) = content q @ [c]"
  "can_add (BattleQueue_add cs q c) = can_add q"
  "qclass (BattleQueue_add cs q c) = qclass q"
  "p1 (BattleQueue_add cs q c) = (if p1 q = None then Some c else p1 q)"
  "p2 (BattleQueue_add cs q c) = (if p1 q = None then enemy (cs c) else p2 q)"
  by (simp_all add: BattleQueue_add_def Let_def)

lemma clean_queue_fields:
  "can_add (clean_queue cs q) = can_add q"
  "qclass (clean_queue cs q) = qclass q"
  "p1 (clean_queue cs q) = p1 q"
  "p2 (clean_queue cs q) = p2 q"
  "content (clean_queue cs q) = clean cs (content q)"
  by (simp_all add: clean_queue_def)

lemma clean_clean [simp]: "clean cs (clean cs xs) = clean cs xs"
  by (induction xs) auto

lemma is_over_clean: "is_over cs q = Inr (b, q') \<Longrightarrow> q' = clean_queue cs q"
  by (auto simp: is_over_def is_empty_def Let_def split: if_splits option.splits bool.splits)

lemma peek_clean: "peek cs q = (r, q') \<Longrightarrow> q' = clean_queue cs q"
  by (auto simp: peek_def Let_def split: list.splits)

lemma is_empty_clean: "is_empty cs q = (r, q') \<Longrightarrow> q' = clean_queue cs q"
  by (auto simp: is_empty_def Let_def)

lemma RestrictedBattleQueue_add_cases:
  assumes "RestrictedBattleQueue_add cs q c = Inr q'"
  shows "(q' = q \<and> content q \<noteq> [] \<and> p1 q \<noteq> None)
       \<or> (q' = q\<lparr>p1 := Some c, p2 := enemy (cs c)\<rparr> \<and> content q \<noteq> [] \<and> p1 q = None)
       \<or> (\<exists>f. content q' = content q @ [c] \<and> can_add q' = can_add q @ [f]
              \<and> qclass q' = qclass q \<and> p1 q' \<noteq> None
              \<and> (p1 q \<noteq> None \<longrightarrow> p1 q' = p1 q \<and> p2 q' = p2 q)
              \<and> (p1 q = None \<longrightarrow> p1 q' = Some c \<and> p2 q' = enemy (cs c)))"
proof -
  from assms obtain n where n: "added_yes_count (content q) (can_add q) c = Inr n"
    by (auto simp: RestrictedBattleQueue_add_def split: sum.splits)
  have appended: ?thesis
    if "q' = (BattleQueue_add cs q c)\<lparr>can_add := can_add q @ [f]\<rparr>" for f
    using that by (simp add: BattleQueue_add_fields)
  have fin: "p1 (BattleQueue_add cs q c) \<noteq> None"
    by (simp add: BattleQueue_add_fields)
  show ?thesis
  proof (cases "content q = []")
    case True
    with assms n have "q' = (BattleQueue_add cs q c)\<lparr>can_add := can_add q @ [''yes'']\<rparr>"
      by (simp add: RestrictedBattleQueue_add_def fin)
    then show ?thesis by (rule appended)
  next
    case False
    with assms n obtain f fs where l: "can_add q = f # fs"
      by (cases "can_add q") (simp_all add: RestrictedBattleQueue_add_def)
    show ?thesis
    proof (cases "f = ''no''")
      case True
      with assms n False l show ?thesis
        by (auto simp: RestrictedBattleQueue_add_def split: if_splits)
    next
      case no: False
      with assms n False l
      have "q' = (BattleQueue_add cs q c)\<lparr>can_add := can_add q @ [''yes'']\<rparr>
          \<or> q' = (BattleQueue_add cs q c)\<lparr>can_add := can_add q @ [''no'']\<rparr>"
        by (simp add: RestrictedBattleQueue_add_def fin split: if_splits)
      then show ?thesis using appended by blast
    qed
  qed
qed

lemma slice_from_length:
  "0 \<le> start \<Longrightarrow> length (slice_from start xs) = length xs - nat start"
  by (simp add: slice_from_def)

lemma RestrictedBattleQueue_remove_fields:
  assumes "RestrictedBattleQueue_remove cs q = Inr (x, q')"
  shows "clean cs (content q) = x # content q'"
    and "can_add q' = slice_from (1 + (int (length (can_add q)) - int (length (clean cs (content q))))) (can_add q)"
    and "p1 q' = p1 q" and "p2 q' = p2 q" and "qclass q' = qclass q"
  using assms
  by (auto simp: RestrictedBattleQueue_remove_def BattleQueue_remove_def Let_def clean_queue_def
           split: list.splits)

lemma clean_queue_ledger_covers: "ledger_covers q \<Longrightarrow> ledger_covers (clean_queue cs q)"
proof -
  assume c: "ledger_covers q"
  have "length (clean cs (content q)) \<le> length (content q)" by (rule length_clean)
  moreover have "clean cs (content q) \<noteq> [] \<Longrightarrow> content q \<noteq> []" by auto
  ultimately show ?thesis using c by (auto simp: ledger_covers_def clean_queue_fields)
qed

lemma reachable_ledger_covers: "reachable q \<Longrightarrow> ledger_covers q"
proof (induction rule: reachable.induct)
  case r_init
  show ?case by (simp add: ledger_covers_def RestrictedBattleQueue_init_def)
next
  case (r_add q cs c q')
  from RestrictedBattleQueue_add_cases [OF r_add.hyps(2)] r_add.IH
  show ?case by (auto simp: ledger_covers_def)
next
  case (r_remove q cs x q')
  note f = RestrictedBattleQueue_remove_fields [OF r_remove.hyps(2)]
  have l: "length (clean cs (content q)) = Suc (length (content q'))" using f(1) by simp
  have "length (clean cs (content q)) \<le> length (content q)" by (rule length_clean)
  with r_remove.IH have le: "length (clean cs (content q)) \<le> length (can_add q)"
    by (simp add: ledger_covers_def)
  have ne: "content q \<noteq> []" using f(1) by auto
  from le l have "length (can_add q') = length (content q')"
    unfolding f(2) by (subst slice_from_length) auto
  with r_remove.IH ne show ?case by (simp add: ledger_covers_def f)
next
  case (r_peek q cs r q')
  have "q' = clean_queue cs q" using r_peek.hyps(2) by (rule peek_clean)
  then show ?case using r_peek.IH by (simp add: clean_queue_ledger_covers)
next
  case (r_is_empty q cs b q')
  have "q' = clean_queue cs q" using r_is_empty.hyps(2) by (rule is_empty_clean)
  then show ?case using r_is_empty.IH by (simp add: clean_queue_ledger_covers)
next
  case (r_is_over q cs b q')
  have "q' = clean_queue cs q" using r_is_over.hyps(2) by (rule is_over_clean)
  then show ?case using r_is_over.IH by (simp add: clean_queue_ledger_covers)
next
  case (r_copy q a1 a2 c1 c2)
  then show ?case by (simp add: ledger_covers_def copied_def RestrictedBattleQueue_init_def)
qed

lemma reachable_qclass: "reachable q \<Longrightarrow> qclass q = RestrictedBattleQueue"
proof (induction rule: reachable.induct)
  case (r_add q cs c q')
  from RestrictedBattleQueue_add_cases [OF r_add.hyps(2)] r_add.IH show ?case by auto
next
  case (r_remove q cs x q')
  then show ?case by (simp add: RestrictedBattleQueue_remove_fields)
qed (auto simp: RestrictedBattleQueue_init_def copied_def clean_queue_fields
       dest!: peek_clean is_empty_clean is_over_clean)

lemma added_yes_count_ok:
  "length xs \<le> length fs \<Longrightarrow> \<exists>n. added_yes_count xs fs c = Inr n"
proof (induction xs fs c rule: added_yes_count.induct)
  case (3 x xs f fs c)
  then show ?case by auto
qed auto

lemma rejected_add:
  assumes "ledger_covers q" "content q \<noteq> []" "can_add q = ''no'' # fs"
  shows "RestrictedBattleQueue_add cs q c = Inr q"
proof -
  from assms(1) obtain n where "added_yes_count (content q) (can_add q) c = Inr n"
    using added_yes_count_ok [of "content q" "can_add q" c] by (auto simp: ledger_covers_def)
  moreover from assms(1,2) have "p1 q \<noteq> None" by (simp add: ledger_covers_def)
  ultimately show ?thesis using assms(2,3)
    by (auto simp: RestrictedBattleQueue_add_def)
qed

lemma run_op_reachable:
  assumes "reachable q" and "qclass q = RestrictedBattleQueue" and "run_op cs op q = Inr q'"
  shows "reachable q'"
proof (cases op)
  case (Add c)
  with assms show ?thesis by (auto simp: add_def intro: r_add)
next
  case Remove
  with assms show ?thesis
    by (auto simp: remove_head_def split: sum.splits intro: r_remove)
next
  case Peek
  with assms show ?thesis using r_peek [of q cs "fst (peek cs q)" "snd (peek cs q)"] by auto
next
  case IsEmpty
  with assms show ?thesis
    using r_is_empty [of q cs "fst (is_empty cs q)" "snd (is_empty cs q)"] by auto
next
  case IsOver
  with assms show ?thesis by (auto split: sum.splits intro: r_is_over)
qed

lemma run_ops_reachable:
  "reachable q \<Longrightarrow> run_ops ops q = Inr q' \<Longrightarrow> reachable q'"
proof (induction ops arbitrary: q)
  case Nil
  then show ?case by simp
next
  case (Cons a ops)
  obtain cs op where a: "a = (cs, op)" by (cases a)
  from Cons.prems(2) a obtain q1 where s: "run_op cs op q = Inr q1" and r: "run_ops ops q1 = Inr q'"
    by (auto split: sum.splits)
  have "reachable q1"
    using Cons.prems(1) reachable_qclass [OF Cons.prems(1)] s by (rule run_op_reachable)
  then show ?case using r by (rule Cons.IH)
qed

lemma run_op_p1:
  assumes "run_op cs op q = Inr q'" and "p1 q = Some a"
  shows "p1 q' = Some a"
proof (cases op)
  case (Add c)
  with assms show ?thesis
    by (auto simp: add_def BattleQueue_add_fields split: qclass.splits
             dest!: RestrictedBattleQueue_add_cases)
next
  case Remove
  with assms show ?thesis
    by (auto simp: remove_head_def BattleQueue_remove_def RestrictedBattleQueue_remove_def
                   clean_queue_def Let_def split: qclass.splits sum.splits list.splits)
next
  case Peek
  with assms show ?thesis using peek_clean [of cs q "fst (peek cs q)" "snd (peek cs q)"]
    by (auto simp: clean_queue_fields)
next
  case IsEmpty
  with assms show ?thesis
    using is_empty_clean [of cs q "fst (is_empty cs q)" "snd (is_empty cs q)"]
    by (auto simp: clean_queue_fields)
next
  case IsOver
  with assms show ?thesis
    by (auto simp: clean_queue_fields split: sum.splits dest!: is_over_clean)
qed

lemma run_ops_p1:
  "run_ops ops q = Inr q' \<Longrightarrow> p1 q = Some a \<Longrightarrow> p1 q' = Some a"
proof (induction ops arbitrary: q)
  case Nil
  then show ?case by simp
next
  case (Cons x ops)
  obtain cs op where x: "x = (cs, op)" by (cases x)
  from Cons.prems(1) x obtain q1 where s: "run_op cs op q = Inr q1" and r: "run_ops ops q1 = Inr q'"
    by (auto split: sum.splits)
  from s Cons.prems(2) have "p1 q1 = Some a" by (rule run_op_p1)
  with r show ?case by (rule Cons.IH)
qed

lemma run_op_p1_first:
  assumes "run_op cs op q = Inr q'" and "p1 q = None"
  shows "case op of Add c \<Rightarrow> p1 q' = Some c | _ \<Rightarrow> p1 q' = None"
proof (cases op)
  case (Add c)
  with assms show ?thesis
    by (auto simp: add_def BattleQueue_add_fields split: qclass.splits
             dest!: RestrictedBattleQueue_add_cases)
next
  case Remove
  with assms show ?thesis
    by (auto simp: remove_head_def BattleQueue_remove_def RestrictedBattleQueue_remove_def
                   clean_queue_def Let_def split: qclass.splits sum.splits list.splits)
next
  case Peek
  with assms show ?thesis using peek_clean [of cs q "fst (peek cs q)" "snd (peek cs q)"]
    by (auto simp: clean_queue_fields)
next
  case IsEmpty
  with assms show ?thesis
    using is_empty_clean [of cs q "fst (is_empty cs q)" "snd (is_empty cs q)"]
    by (auto simp: clean_queue_fields)
next
  case IsOver
  with assms show ?thesis
    by (auto simp: clean_queue_fields split: sum.splits dest!: is_over_clean)
qed

lemma run_ops_first_added:
  "run_ops ops q = Inr q' \<Longrightarrow> p1 q = None \<Longrightarrow> first_added ops = Some c \<Longrightarrow> p1 q' = Some c"
proof (induction ops arbitrary: q)
  case Nil
  then show ?case by simp
next
  case (Cons x ops)
  obtain cs op where x: "x = (cs, op)" by (cases x)
  from Cons.prems(1) x obtain q1 where s: "run_op cs op q = Inr q1" and r: "run_ops ops q1 = Inr q'"
    by (auto split: sum.splits)
  note f = run_op_p1_first [OF s Cons.prems(2)]
  show ?case
  proof (cases "\<exists>d. op = Add d")
    case True
    then obtain d where d: "op = Add d" by blast
    with Cons.prems(3) x have "d = c" by simp
    with f d have "p1 q1 = Some c" by simp
    with r show ?thesis by (rule run_ops_p1)
  next
    case False
    with f have "p1 q1 = None" by (cases op) simp_all
    moreover from False Cons.prems(3) x have "first_added ops = Some c" by (cases op) simp_all
    ultimately show ?thesis using r Cons.IH by blast
  qed
qed

lemmas queue_eval =
  add_def remove_head_def RestrictedBattleQueue_add_def RestrictedBattleQueue_remove_def
  BattleQueue_add_def BattleQueue_remove_def RestrictedBattleQueue_init_def BattleQueue_init_def
  clean_queue_def get_available_actions_def is_valid_action_def two_rogues_def
  Character_init_def slice_from_def Let_def peek_def is_empty_def is_over_def get_winner_def

section \<open>Properties of the heap operations\<close>

lemma heap_of_chars [simp]:
  "chars (heap_of cs qs) a = (if a < length cs then cs ! a else Character_init Mage 0)"
  by (simp add: heap_of_def)

lemma heap_of_queues [simp]:
  "queues (heap_of cs qs) q = (if q < length qs then qs ! q else BattleQueue_init)"
  by (simp add: heap_of_def)

lemma heap_of_next [simp]:
  "next_char (heap_of cs qs) = length cs" "next_queue (heap_of cs qs) = length qs"
  by (simp_all add: heap_of_def)

lemma heap_of_set_char [simp]:
  "a < length cs \<Longrightarrow> set_char (heap_of cs qs) a c = heap_of (cs[a := c]) qs"
  by (auto simp: heap_of_def set_char_def fun_eq_iff)

lemma heap_of_set_queue [simp]:
  "q < length qs \<Longrightarrow> set_queue (heap_of cs qs) q x = heap_of cs (qs[q := x])"
  by (auto simp: heap_of_def set_queue_def fun_eq_iff)

lemma heap_of_Character_copy [simp]:
  "a < length cs \<Longrightarrow>
   Character_copy (heap_of cs qs) a nq =
     (length cs,
      heap_of (cs @ [\<lparr>ctype = ctype (cs ! a), hp = hp (cs ! a), sp = sp (cs ! a), enemy = None,
                      battle_queue = nq,
                      decision_tree = (if ctype (cs ! a) = Sorcerer then decision_tree (cs ! a)
                                       else None)\<rparr>]) qs)"
  by (auto simp: heap_of_def Character_copy_def set_char_def fun_eq_iff Let_def nth_append)

lemma heap_of_new_queue [simp]:
  "new_queue (heap_of cs qs) q = (length qs, heap_of cs (qs @ [q]))"
  by (auto simp: heap_of_def new_queue_def set_queue_def fun_eq_iff Let_def nth_append)

lemma evolves_refl: "region_closed h A Q \<Longrightarrow> evolves A Q h h"
  by (simp add: evolves_def same_outside_def same_links_def)

lemma same_outside_trans:
  "same_outside h h1 A Q \<Longrightarrow> same_outside h1 h2 A Q \<Longrightarrow> same_outside h h2 A Q"
  by (simp add: same_outside_def)

lemma same_links_trans: "same_links h h1 \<Longrightarrow> same_links h1 h2 \<Longrightarrow> same_links h h2"
  by (simp add: same_links_def)

lemma evolves_trans: "evolves A Q h h1 \<Longrightarrow> evolves A Q h1 h2 \<Longrightarrow> evolves A Q h h2"
  unfolding evolves_def by (blast intro: same_outside_trans same_links_trans)

lemma evolves_closed: "evolves A Q h h' \<Longrightarrow> region_closed h' A Q"
  by (simp add: evolves_def)

lemma qevolves_refl: "qevolves X q q"
  by (simp add: qevolves_def)

lemma qevolves_trans: "qevolves X q q1 \<Longrightarrow> qevolves X q1 q2 \<Longrightarrow> qevolves X q q2"
  unfolding qevolves_def by auto

lemma set_clean: "set (clean cs xs) \<subseteq> set xs"
  by (induction xs) auto

lemma qevolves_clean: "qevolves X q (clean_queue cs q)"
  using set_clean [of cs "content q"]
  by (auto simp: qevolves_def qrefs_def clean_queue_def)

lemma qevolves_BattleQueue_add:
  "insert c (set_option (enemy (cs c))) \<subseteq> X \<Longrightarrow> qevolves X q (BattleQueue_add cs q c)"
  by (auto simp: qevolves_def qrefs_def BattleQueue_add_def Let_def)

lemma qevolves_add:
  assumes "add cs q c = Inr q'" and "insert c (set_option (enemy (cs c))) \<subseteq> X"
  shows "qevolves X q q'"
proof (cases "qclass q")
  case BattleQueue
  with assms show ?thesis by (auto simp: add_def intro: qevolves_BattleQueue_add)
next
  case RestrictedBattleQueue
  with assms(1) have "RestrictedBattleQueue_add cs q c = Inr q'" by (simp add: add_def)
  from RestrictedBattleQueue_add_cases [OF this] show ?thesis
  proof (elim disjE exE conjE)
    assume "q' = q"
    then show ?thesis by (simp add: qevolves_refl)
  next
    assume "q' = q\<lparr>p1 := Some c, p2 := enemy (cs c)\<rparr>" "p1 q = None"
    with assms(2) show ?thesis by (auto simp: qevolves_def qrefs_def)
  next
    assume "content q' = content q @ [c]" "qclass q' = qclass q"
      "p1 q \<noteq> None \<longrightarrow> p1 q' = p1 q \<and> p2 q' = p2 q"
      "p1 q = None \<longrightarrow> p1 q' = Some c \<and> p2 q' = enemy (cs c)"
    with assms(2) show ?thesis by (cases "p1 q = None") (auto simp: qevolves_def qrefs_def)
  qed
qed

lemma qevolves_BattleQueue_remove:
  assumes "BattleQueue_remove cs q = Inr (x, q')"
  shows "qevolves X q q'" and "x \<in> set (content q)"
  using assms set_clean [of cs "content q"]
  by (auto simp: BattleQueue_remove_def Let_def clean_queue_def qevolves_def qrefs_def
           split: list.splits)

lemma qevolves_remove_head:
  assumes "remove_head cs q = Inr (x, q')"
  shows "qevolves X q q'" and "x \<in> set (content q)"
proof -
  have "qevolves X q q' \<and> x \<in> set (content q)"
  proof (cases "qclass q")
    case BattleQueue
    with assms have r: "BattleQueue_remove cs q = Inr (x, q')" by (simp add: remove_head_def)
    from qevolves_BattleQueue_remove [OF r] show ?thesis by simp
  next
    case RestrictedBattleQueue
    with assms have r: "RestrictedBattleQueue_remove cs q = Inr (x, q')"
      by (simp add: remove_head_def)
    note f = RestrictedBattleQueue_remove_fields [OF r]
    have "set (clean cs (content q)) \<subseteq> set (content q)" by (rule set_clean)
    with f(1) have "x \<in> set (content q)" "set (content q') \<subseteq> set (content q)" by auto
    with f(3,4,5) show ?thesis by (auto simp: qevolves_def qrefs_def)
  qed
  then show "qevolves X q q'" and "x \<in> set (content q)" by simp_all
qed

lemma peek_result:
  assumes "peek cs q = (r, q')"
  shows "q' = clean_queue cs q" and "set_option r \<subseteq> qrefs q"
  using assms set_clean [of cs "content q"]
  by (auto simp: peek_def Let_def clean_queue_def qrefs_def split: list.splits)

lemma qevolves_drain: "drain cs q = Inr q' \<Longrightarrow> qevolves X q q'"
proof (induction cs q rule: drain.induct)
  case (1 cs q)
  show ?case
  proof (cases "content (clean_queue cs q) = []")
    case True
    with "1.prems" have "q' = clean_queue cs q"
      by (subst (asm) drain.simps) (simp add: is_empty_def Let_def)
    then show ?thesis by (simp add: qevolves_clean)
  next
    case False
    with "1.prems" obtain x q2 where r: "remove_head cs (clean_queue cs q) = Inr (x, q2)"
      and d: "drain cs q2 = Inr q'"
      by (subst (asm) drain.simps) (auto simp: is_empty_def Let_def split: sum.splits)
    have e: "is_empty cs q = (False, clean_queue cs q)"
      using False by (simp add: is_empty_def Let_def)
    have "qevolves X q2 q'"
      using "1.IH" [OF e [symmetric] refl r refl d] .
    moreover have "qevolves X (clean_queue cs q) q2" using r by (rule qevolves_remove_head)
    moreover have "qevolves X q (clean_queue cs q)" by (rule qevolves_clean)
    ultimately show ?thesis by (blast intro: qevolves_trans)
  qed
qed

text \<open>Writing one object of a closed region.\<close>

lemma evolves_set_queue:
  assumes "region_closed h A Q" and "qa \<in> Q" and "qevolves X (queues h qa) q'" and "X \<subseteq> A"
  shows "evolves A Q h (set_queue h qa q')"
  using assms
  unfolding evolves_def region_closed_def same_outside_def same_links_def set_queue_def
    qevolves_def
  by (intro conjI ballI allI impI) (auto, blast+)

lemma evolves_set_char:
  assumes "region_closed h A Q" and "a \<in> A"
    and "enemy c = enemy (chars h a)" and "battle_queue c = battle_queue (chars h a)"
    and "ctype c = ctype (chars h a)" and "decision_tree c = decision_tree (chars h a)"
  shows "evolves A Q h (set_char h a c)"
  using assms
  unfolding evolves_def region_closed_def same_outside_def same_links_def set_char_def
  by (intro conjI ballI allI impI) auto

lemma set_queue_chars [simp]: "chars (set_queue h qa q) = chars h"
  by (simp add: set_queue_def)

lemma set_char_queues [simp]: "queues (set_char h a c) = queues h"
  by (simp add: set_char_def)

lemma closed_enemy: "region_closed h A Q \<Longrightarrow> a \<in> A \<Longrightarrow> enemy (chars h a) = Some t \<Longrightarrow> t \<in> A"
  by (auto simp: region_closed_def)

lemma closed_battle_queue: "region_closed h A Q \<Longrightarrow> a \<in> A \<Longrightarrow> battle_queue (chars h a) \<in> Q"
  by (auto simp: region_closed_def)

lemma closed_qrefs: "region_closed h A Q \<Longrightarrow> q \<in> Q \<Longrightarrow> qrefs (queues h q) \<subseteq> A"
  by (auto simp: region_closed_def)

text \<open>The queue methods, called on a queue of a closed region.\<close>

lemma evolves_h_add:
  assumes "region_closed h A Q" and "qa \<in> Q" and "c \<in> A" and "h_add h qa c = Inr h'"
  shows "evolves A Q h h'" and "chars h' = chars h"
proof -
  from assms(4) obtain q' where a: "add (chars h) (queues h qa) c = Inr q'"
    and h': "h' = set_queue h qa q'"
    by (auto simp: h_add_def split: sum.splits)
  have "insert c (set_option (enemy (chars h c))) \<subseteq> A"
    using assms(1,3) by (auto simp: region_closed_def)
  with a have "qevolves A (queues h qa) q'" by (rule qevolves_add)
  with assms(1,2) show "evolves A Q h h'" unfolding h' by (rule evolves_set_queue) simp
  show "chars h' = chars h" by (simp add: h')
qed

lemma evolves_h_remove:
  assumes "region_closed h A Q" and "qa \<in> Q" and "h_remove h qa = Inr (x, h')"
  shows "evolves A Q h h'" and "chars h' = chars h" and "x \<in> A"
proof -
  from assms(3) obtain q' where r: "remove_head (chars h) (queues h qa) = Inr (x, q')"
    and h': "h' = set_queue h qa q'"
    by (auto simp: h_remove_def split: sum.splits)
  from r have "qevolves A (queues h qa) q'" by (rule qevolves_remove_head)
  with assms(1,2) show "evolves A Q h h'" unfolding h' by (rule evolves_set_queue) simp
  show "chars h' = chars h" by (simp add: h')
  from r have "x \<in> set (content (queues h qa))" by (rule qevolves_remove_head)
  with closed_qrefs [OF assms(1,2)] show "x \<in> A" by (auto simp: qrefs_def)
qed

lemma evolves_clean:
  assumes "region_closed h A Q" and "qa \<in> Q"
  shows "evolves A Q h (set_queue h qa (clean_queue (chars h) (queues h qa)))"
  using assms(1,2) qevolves_clean [of A] by (rule evolves_set_queue) simp

lemma evolves_h_peek:
  assumes "region_closed h A Q" and "qa \<in> Q" and "h_peek h qa = (r, h')"
  shows "evolves A Q h h'" and "chars h' = chars h" and "set_option r \<subseteq> A"
    and "h' = set_queue h qa (clean_queue (chars h) (queues h qa))"
proof -
  from assms(3) obtain q' where p: "peek (chars h) (queues h qa) = (r, q')"
    and h': "h' = set_queue h qa q'"
    by (auto simp: h_peek_def split: prod.splits)
  note pr = peek_result [OF p]
  show "h' = set_queue h qa (clean_queue (chars h) (queues h qa))" using h' pr(1) by simp
  then show "evolves A Q h h'" using evolves_clean [OF assms(1,2)] by simp
  show "chars h' = chars h" by (simp add: h')
  from pr(2) closed_qrefs [OF assms(1,2)] show "set_option r \<subseteq> A" by blast
qed

lemma evolves_h_is_empty:
  assumes "region_closed h A Q" and "qa \<in> Q" and "h_is_empty h qa = (r, h')"
  shows "evolves A Q h h'" and "chars h' = chars h"
proof -
  from assms(3) have h': "h' = set_queue h qa (clean_queue (chars h) (queues h qa))"
    by (auto simp: h_is_empty_def is_empty_def Let_def)
  then show "evolves A Q h h'" using evolves_clean [OF assms(1,2)] by simp
  show "chars h' = chars h" by (simp add: h')
qed

lemma evolves_h_is_over:
  assumes "region_closed h A Q" and "qa \<in> Q" and "h_is_over h qa = Inr (r, h')"
  shows "evolves A Q h h'" and "chars h' = chars h"
proof -
  from assms(3) obtain q' where o: "is_over (chars h) (queues h qa) = Inr (r, q')"
    and h': "h' = set_queue h qa q'"
    by (auto simp: h_is_over_def split: sum.splits)
  from o have "q' = clean_queue (chars h) (queues h qa)" by (rule is_over_clean)
  with h' show "evolves A Q h h'" using evolves_clean [OF assms(1,2)] by simp
  show "chars h' = chars h" by (simp add: h')
qed

lemma get_winner_clean: "get_winner cs q = Inr (r, q') \<Longrightarrow> q' = clean_queue cs q"
  by (auto simp: get_winner_def split: sum.splits if_splits option.splits bool.splits
           dest!: is_over_clean)

lemma evolves_h_get_winner:
  assumes "region_closed h A Q" and "qa \<in> Q" and "h_get_winner h qa = Inr (r, h')"
  shows "evolves A Q h h'" and "chars h' = chars h"
proof -
  from assms(3) obtain q' where o: "get_winner (chars h) (queues h qa) = Inr (r, q')"
    and h': "h' = set_queue h qa q'"
    by (auto simp: h_get_winner_def split: sum.splits)
  from o have "q' = clean_queue (chars h) (queues h qa)" by (rule get_winner_clean)
  with h' show "evolves A Q h h'" using evolves_clean [OF assms(1,2)] by simp
  show "chars h' = chars h" by (simp add: h')
qed

lemma evolves_h_drain:
  assumes "region_closed h A Q" and "qa \<in> Q" and "h_drain h qa = Inr h'"
  shows "evolves A Q h h'" and "chars h' = chars h"
proof -
  from assms(3) obtain q' where d: "drain (chars h) (queues h qa) = Inr q'"
    and h': "h' = set_queue h qa q'"
    by (auto simp: h_drain_def split: sum.splits)
  from d have "qevolves A (queues h qa) q'" by (rule qevolves_drain)
  with assms(1,2) show "evolves A Q h h'" unfolding h' by (rule evolves_set_queue) simp
  show "chars h' = chars h" by (simp add: h')
qed

text \<open>
  The mutators of a character and the skills, on characters of a closed region.
  Each lemma extends a development \<open>evolves A Q h0 h\<close> by one more step.
\<close>

lemma then_set_char:
  assumes "evolves A Q h0 h" and "a \<in> A"
    and "enemy c = enemy (chars h a)" and "battle_queue c = battle_queue (chars h a)"
    and "ctype c = ctype (chars h a)" and "decision_tree c = decision_tree (chars h a)"
  shows "evolves A Q h0 (set_char h a c)"
  using assms(1) evolves_set_char [OF evolves_closed [OF assms(1)] assms(2-6)]
  by (rule evolves_trans)

lemma then_reduce_sp: "evolves A Q h0 h \<Longrightarrow> a \<in> A \<Longrightarrow> evolves A Q h0 (reduce_sp h a cost)"
  unfolding reduce_sp_def by (rule then_set_char) simp_all

lemma then_apply_damage: "evolves A Q h0 h \<Longrightarrow> a \<in> A \<Longrightarrow> evolves A Q h0 (apply_damage h a d)"
  unfolding apply_damage_def Let_def by (rule then_set_char) simp_all

lemma then_set_hp: "evolves A Q h0 h \<Longrightarrow> a \<in> A \<Longrightarrow> evolves A Q h0 (set_hp h a v)"
  unfolding set_hp_def by (rule then_set_char) simp_all

lemma then_set_sp: "evolves A Q h0 h \<Longrightarrow> a \<in> A \<Longrightarrow> evolves A Q h0 (set_sp h a v)"
  unfolding set_sp_def by (rule then_set_char) simp_all

lemma then_deal_damage:
  "evolves A Q h0 h \<Longrightarrow> c \<in> A \<Longrightarrow> t \<in> A \<Longrightarrow> evolves A Q h0 (deal_damage s h c t)"
  unfolding deal_damage_def by (intro then_apply_damage then_reduce_sp)

lemma then_add_to_own_queue:
  assumes "evolves A Q h0 h" and "c \<in> A" and "x \<in> A"
    and "h_add h (battle_queue (chars h c)) x = Inr h'"
  shows "evolves A Q h0 h'"
proof -
  have cl: "region_closed h A Q" using assms(1) by (rule evolves_closed)
  then have "battle_queue (chars h c) \<in> Q" using assms(2) by (rule closed_battle_queue)
  with cl have "evolves A Q h h'" using assms(3,4) by (rule evolves_h_add)
  with assms(1) show ?thesis by (rule evolves_trans)
qed

lemma then_drain_own_queue:
  assumes "evolves A Q h0 h" and "c \<in> A" and "h_drain h (battle_queue (chars h c)) = Inr h'"
  shows "evolves A Q h0 h'"
proof -
  have cl: "region_closed h A Q" using assms(1) by (rule evolves_closed)
  then have "battle_queue (chars h c) \<in> Q" using assms(2) by (rule closed_battle_queue)
  with cl have "evolves A Q h h'" using assms(3) by (rule evolves_h_drain)
  with assms(1) show ?thesis by (rule evolves_trans)
qed

lemma bindE_Inr: "bindE m f = Inr y \<Longrightarrow> \<exists>x. m = Inr x \<and> f x = Inr y"
  by (cases m) (simp_all add: bindE_def)

lemma then_NormalAttack_use:
  assumes "evolves A Q h0 h" and "c \<in> A" and "t \<in> A" and "NormalAttack_use s h c t = Inr h'"
  shows "evolves A Q h0 h'"
  using assms(4) unfolding NormalAttack_use_def Let_def
  by (rule then_add_to_own_queue [OF then_deal_damage [OF assms(1-3)] assms(2) assms(2)])

lemma then_use:
  assumes "evolves A Q h0 h" and "c \<in> A" and "t \<in> A" and "use s h c t = Inr h'"
  shows "evolves A Q h0 h'"
proof (cases s)
  case MageAttack
  with assms show ?thesis by (auto intro: then_NormalAttack_use)
next
  case RogueAttack
  with assms show ?thesis by (auto intro: then_NormalAttack_use)
next
  case MageSpecial
  with assms(4) obtain h2 where
    a: "h_add (deal_damage s h c t) (battle_queue (chars (deal_damage s h c t) c)) t = Inr h2"
    and b: "h_add h2 (battle_queue (chars h2 c)) c = Inr h'"
    by (auto simp: Let_def dest!: bindE_Inr)
  note e1 = then_deal_damage [OF assms(1-3), of s]
  note e2 = then_add_to_own_queue [OF e1 assms(2) assms(3) a]
  show ?thesis by (rule then_add_to_own_queue [OF e2 assms(2) assms(2) b])
next
  case RogueSpecial
  with assms(4) obtain h2 where
    a: "h_add (deal_damage s h c t) (battle_queue (chars (deal_damage s h c t) c)) c = Inr h2"
    and b: "h_add h2 (battle_queue (chars h2 c)) c = Inr h'"
    by (auto simp: Let_def dest!: bindE_Inr)
  note e1 = then_deal_damage [OF assms(1-3), of s]
  note e2 = then_add_to_own_queue [OF e1 assms(2) assms(2) a]
  show ?thesis by (rule then_add_to_own_queue [OF e2 assms(2) assms(2) b])
next
  case VampireAttack
  with assms(4) obtain h1 v where a: "NormalAttack_use s h c t = Inr h1"
    and b: "h' = set_hp h1 c v"
    by (auto simp: Let_def dest!: bindE_Inr)
  note e1 = then_NormalAttack_use [OF assms(1-3) a]
  show ?thesis unfolding b by (rule then_set_hp [OF e1 assms(2)])
next
  case VampireSpecial
  with assms(4) obtain v h3 h4 where
    a: "h_add (set_hp (deal_damage s h c t) c v)
          (battle_queue (chars (set_hp (deal_damage s h c t) c v) c)) c = Inr h3"
    and b: "h_add h3 (battle_queue (chars h3 c)) c = Inr h4"
    and d: "h_add h4 (battle_queue (chars h4 c)) t = Inr h'"
    by (auto simp: Let_def dest!: bindE_Inr)
  note e1 = then_set_hp [OF then_deal_damage [OF assms(1-3), of s] assms(2), of v]
  note e2 = then_add_to_own_queue [OF e1 assms(2) assms(2) a]
  note e3 = then_add_to_own_queue [OF e2 assms(2) assms(2) b]
  show ?thesis by (rule then_add_to_own_queue [OF e3 assms(2) assms(3) d])
next
  case SorcererAttack
  with assms(4) obtain v where b: "h' = set_hp (deal_damage s h c t) t v"
    by (auto simp: Let_def)
  show ?thesis unfolding b by (rule then_set_hp [OF then_deal_damage [OF assms(1-3)] assms(3)])
next
  case SorcererSpecial
  with assms(4) obtain h1 h2 h3 where
    z: "h_drain h (battle_queue (chars h c)) = Inr h1"
    and a: "h_add (deal_damage s h1 c t) (battle_queue (chars (deal_damage s h1 c t) c)) c = Inr h2"
    and b: "h_add h2 (battle_queue (chars h2 c)) t = Inr h3"
    and d: "h_add h3 (battle_queue (chars h3 c)) c = Inr h'"
    by (auto simp: Let_def dest!: bindE_Inr)
  note e0 = then_drain_own_queue [OF assms(1,2) z]
  note e1 = then_deal_damage [OF e0 assms(2,3), of s]
  note e2 = then_add_to_own_queue [OF e1 assms(2) assms(2) a]
  note e3 = then_add_to_own_queue [OF e2 assms(2) assms(3) b]
  show ?thesis by (rule then_add_to_own_queue [OF e3 assms(2) assms(2) d])
qed

lemma then_attack:
  assumes "evolves A Q h0 h" and "a \<in> A" and "attack h a = Inr h'"
  shows "evolves A Q h0 h'"
proof -
  from assms(3) obtain t where t: "enemy (chars h a) = Some t"
    by (auto simp: attack_def split: option.splits)
  have tA: "t \<in> A" using evolves_closed [OF assms(1)] assms(2) t by (rule closed_enemy)
  show ?thesis
  proof (cases "ctype (chars h a)")
    case Mage
    with assms(3) t have "use MageAttack h a t = Inr h'" by (simp add: attack_def)
    with assms(1,2) tA show ?thesis by (rule then_use)
  next
    case Rogue
    with assms(3) t have "use RogueAttack h a t = Inr h'" by (simp add: attack_def)
    with assms(1,2) tA show ?thesis by (rule then_use)
  next
    case Vampire
    with assms(3) t have "use VampireAttack h a t = Inr h'" by (simp add: attack_def)
    with assms(1,2) tA show ?thesis by (rule then_use)
  next
    case Sorcerer
    with assms(3) t obtain s h1 where u: "use s h a t = Inr h1"
      and v: "use SorcererAttack (set_sp h1 a (sp (chars h a))) a t = Inr h'"
      by (auto simp: attack_def Let_def split: option.splits dest!: bindE_Inr)
    note e1 = then_use [OF assms(1,2) tA u]
    note e2 = then_set_sp [OF e1 assms(2), of "sp (chars h a)"]
    show ?thesis by (rule then_use [OF e2 assms(2) tA v])
  qed
qed

lemma then_special_attack:
  assumes "evolves A Q h0 h" and "a \<in> A" and "special_attack h a = Inr h'"
  shows "evolves A Q h0 h'"
proof -
  from assms(3) obtain t where t: "enemy (chars h a) = Some t"
    by (auto simp: special_attack_def split: option.splits)
  have tA: "t \<in> A" using evolves_closed [OF assms(1)] assms(2) t by (rule closed_enemy)
  from assms(3) t obtain s where "use s h a t = Inr h'"
    by (cases "ctype (chars h a)") (auto simp: special_attack_def simp del: use.simps)
  with assms(1,2) tA show ?thesis by (rule then_use)
qed

lemma set_queue_twice [simp]: "set_queue (set_queue h q x) q y = set_queue h q y"
  by (simp add: set_queue_def)

lemma set_queue_queues_same [simp]: "queues (set_queue h q x) q = x"
  by (simp add: set_queue_def)

lemma fold_BattleQueue_add:
  "p1 (queues h nq) \<noteq> None \<Longrightarrow>
   fold (\<lambda>character h'. set_queue h' nq (BattleQueue_add (chars h') (queues h' nq) (g character)))
     xs h
   = set_queue h nq ((queues h nq)\<lparr>content := content (queues h nq) @ map g xs\<rparr>)"
proof (induction xs arbitrary: h)
  case Nil
  show ?case by (simp add: set_queue_def)
next
  case (Cons x xs)
  let ?f = "\<lambda>character h'. set_queue h' nq (BattleQueue_add (chars h') (queues h' nq) (g character))"
  let ?h1 = "set_queue h nq (BattleQueue_add (chars h) (queues h nq) (g x))"
  have p: "p1 (queues ?h1 nq) \<noteq> None" using Cons.prems by (simp add: BattleQueue_add_fields)
  have "fold ?f (x # xs) h = fold ?f xs ?h1" by simp
  also have "\<dots> = set_queue ?h1 nq ((queues ?h1 nq)\<lparr>content := content (queues ?h1 nq) @ map g xs\<rparr>)"
    by (rule Cons.IH [OF p])
  also have "\<dots> = set_queue h nq ((queues h nq)\<lparr>content := content (queues h nq) @ map g (x # xs)\<rparr>)"
    using Cons.prems by (auto simp: BattleQueue_add_def Let_def)
  finally show ?case .
qed

lemma emptied_new_queue:
  assumes "content (queues h nq) = [c]"
  shows "(case h_is_empty h nq of
            (e, h7) \<Rightarrow>
              bindE (if \<not> e then (case BattleQueue_remove (chars h7) (queues h7 nq) of
                                     Inl err \<Rightarrow> Inl err
                                   | Inr (x, q) \<Rightarrow> Inr (set_queue h7 nq q))
                     else Inr h7) F)
         = F (set_queue h nq ((queues h nq)\<lparr>content := []\<rparr>))"
  using assms
  by (simp add: h_is_empty_def is_empty_def BattleQueue_remove_def clean_queue_def Let_def
        bindE_def)

lemma BattleQueue_copy_eq:
  assumes "p1 (queues h bq) = Some a1" and "p2 (queues h bq) = Some a2"
    and "qclass (queues h bq) = BattleQueue"
  shows "BattleQueue_copy h bq = Inr (next_queue h, copy_result h bq a1 a2)"
proof -
  define n where "n = next_char h"
  define nq where "nq = next_queue h"
  define c1 where "c1 = copied_character (chars h a1) nq (Suc n)"
  define c2 where "c2 = copied_character (if a2 = n then c1 else chars h a2) nq n"
  define h1 where "h1 = (set_queue h nq BattleQueue_init)\<lparr>next_queue := Suc nq\<rparr>"
  define h2 where "h2 = (set_char h1 n (c1\<lparr>enemy := None\<rparr>))\<lparr>next_char := Suc n\<rparr>"
  define h3 where "h3 = (set_char h2 (Suc n) (c2\<lparr>enemy := None\<rparr>))\<lparr>next_char := Suc (Suc n)\<rparr>"
  define h5 where "h5 = set_enemy (set_enemy h3 n (Suc n)) (Suc n) n"
  define h6 where "h6 = set_queue h5 nq (BattleQueue_add (chars h5) (queues h5 nq) n)"
  have new: "new_queue h BattleQueue_init = (nq, h1)"
    by (simp add: new_queue_def Let_def h1_def nq_def)
  have cc1: "Character_copy h1 a1 nq = (n, h2)"
    by (simp add: Character_copy_def Let_def h2_def h1_def n_def c1_def copied_character_def
          set_queue_def)
  have cc2: "Character_copy h2 a2 nq = (Suc n, h3)"
    by (simp add: Character_copy_def Let_def h3_def h2_def h1_def c2_def c1_def
          copied_character_def set_queue_def set_char_def)
  have e5: "h5 = h\<lparr>chars := (chars h)(n := c1, Suc n := c2),
                    queues := (queues h)(nq := BattleQueue_init),
                    next_char := Suc (Suc n), next_queue := Suc nq\<rparr>"
    by (auto simp: h5_def h3_def h2_def h1_def c1_def c2_def copied_character_def
          set_enemy_def set_char_def set_queue_def fun_eq_iff)
  have q6: "queues h6 nq = \<lparr>qclass = BattleQueue, content = [n], p1 = Some n, p2 = Some (Suc n),
                             can_add = []\<rparr>"
    by (simp add: h6_def e5 BattleQueue_add_def BattleQueue_init_def Let_def c1_def
          copied_character_def)
  have "BattleQueue_copy h bq =
        (case h_is_empty h6 nq of
            (e, h7) \<Rightarrow>
              bindE (if \<not> e then (case BattleQueue_remove (chars h7) (queues h7 nq) of
                                     Inl err \<Rightarrow> Inl err
                                   | Inr (x, q) \<Rightarrow> Inr (set_queue h7 nq q))
                     else Inr h7)
                (\<lambda>h8. Inr (nq,
                   fold (\<lambda>character h'.
                           set_queue h' nq
                             (BattleQueue_add (chars h') (queues h' nq)
                                (if character = a1 then n else Suc n)))
                     (content (queues h bq)) h8)))"
    unfolding BattleQueue_copy_def Let_def new cc1 cc2 assms prod.case option.case
    by (simp only: h5_def h6_def)
  also have "\<dots> = Inr (nq, copy_result h bq a1 a2)"
    apply (subst emptied_new_queue [where c = n])
     apply (simp add: q6)
    apply (subst fold_BattleQueue_add)
     apply (simp add: q6)
    apply (simp add: q6)
    apply (auto simp: copy_result_def h6_def e5 set_queue_def Let_def n_def nq_def c1_def c2_def
             assms BattleQueue_init_def fun_eq_iff)
    done
  finally show ?thesis by (simp add: nq_def)
qed

lemma RestrictedBattleQueue_copy_eq:
  assumes "p1 (queues h bq) = Some a1" and "p2 (queues h bq) = Some a2"
    and "qclass (queues h bq) = RestrictedBattleQueue"
  shows "RestrictedBattleQueue_copy h bq = Inr (next_queue h, copy_result h bq a1 a2)"
  using assms
  by (auto simp: RestrictedBattleQueue_copy_def copy_result_def new_queue_def Character_copy_def
        set_enemy_def set_char_def set_queue_def Let_def copied_character_def
        RestrictedBattleQueue_init_def fun_eq_iff)

lemma copy_eq:
  "copy h bq =
     (case p1 (queues h bq) of
        None \<Rightarrow> Inl AttributeError
      | Some a1 \<Rightarrow>
          (case p2 (queues h bq) of
             None \<Rightarrow> Inl AttributeError
           | Some a2 \<Rightarrow> Inr (next_queue h, copy_result h bq a1 a2)))"
proof (cases "p1 (queues h bq)")
  case None
  then show ?thesis
    by (simp add: copy_def BattleQueue_copy_def RestrictedBattleQueue_copy_def new_queue_def
          Let_def split: qclass.splits)
next
  case a1: (Some a1)
  show ?thesis
  proof (cases "p2 (queues h bq)")
    case None
    with a1 show ?thesis
      by (simp add: copy_def BattleQueue_copy_def RestrictedBattleQueue_copy_def new_queue_def
            Character_copy_def Let_def split: qclass.splits)
  next
    case (Some a2)
    with a1 show ?thesis
      by (cases "qclass (queues h bq)")
         (simp_all add: copy_def BattleQueue_copy_eq RestrictedBattleQueue_copy_eq)
  qed
qed

lemma heap_of_copy_result:
  assumes "a1 < length cs" and "a2 < length cs" and "bq < length qs"
  shows "copy_result (heap_of cs qs) bq a1 a2 =
     heap_of (cs @ [copied_character (cs ! a1) (length qs) (Suc (length cs)),
                    copied_character (cs ! a2) (length qs) (length cs)])
             (qs @ [\<lparr>qclass = qclass (qs ! bq),
                      content = map (\<lambda>character. if character = a1 then length cs
                                                  else Suc (length cs)) (content (qs ! bq)),
                      p1 = Some (length cs), p2 = Some (Suc (length cs)),
                      can_add = (case qclass (qs ! bq) of BattleQueue \<Rightarrow> []
                                 | RestrictedBattleQueue \<Rightarrow> can_add (qs ! bq))\<rparr>])"
  using assms
  by (auto simp: copy_result_def heap_of_def Let_def fun_eq_iff nth_append)

lemmas heap_eval =
  h_is_over_def is_over_def is_empty_def clean_queue_def copy_eq heap_of_copy_result
  copied_character_def set_enemy_def h_is_empty_def BattleQueue_add_def BattleQueue_remove_def
  explore_def play_def h_peek_def peek_def attack_def special_attack_def NormalAttack_use_def
  deal_damage_def reduce_sp_def apply_damage_def set_hp_def set_sp_def h_add_def add_def
  h_remove_def remove_head_def terminal_score_def h_get_winner_def get_winner_def signed_def
  Character_init_def get_available_actions_def is_valid_action_def Let_def bindE_def
  BattleQueue_init_def RestrictedBattleQueue_init_def RestrictedBattleQueue_add_def
  RestrictedBattleQueue_remove_def slice_from_def fighter_def duel_def

lemmas iter_eval =
  iterative_score_def iterative_get_score_def Tree_init_def set_children_def
  set_score_def expand_move_def removed_helper_def max_list_def

lemma evolves_run_hop:
  assumes "region_closed h A Q" and "within A Q op" and "run_hop h op = Inr h'"
  shows "evolves A Q h h'"
proof (cases op)
  case (Attack a)
  with assms show ?thesis by (auto intro: then_attack [OF evolves_refl])
next
  case (SpecialAttack a)
  with assms show ?thesis by (auto intro: then_special_attack [OF evolves_refl])
next
  case (QAdd q c)
  with assms show ?thesis by (auto intro: evolves_h_add)
next
  case (QRemove q)
  with assms show ?thesis by (auto split: sum.splits intro: evolves_h_remove)
next
  case (QPeek q)
  with assms show ?thesis
    using evolves_h_peek(1) [of h A Q q "fst (h_peek h q)" "snd (h_peek h q)"] by auto
next
  case (QIsEmpty q)
  with assms show ?thesis
    using evolves_h_is_empty(1) [of h A Q q "fst (h_is_empty h q)" "snd (h_is_empty h q)"]
    by auto
next
  case (QIsOver q)
  with assms show ?thesis by (auto split: sum.splits intro: evolves_h_is_over)
next
  case (QGetWinner q)
  with assms show ?thesis by (auto split: sum.splits intro: evolves_h_get_winner)
qed

lemma evolves_run_hops:
  "region_closed h A Q \<Longrightarrow> \<forall>op\<in>set ops. within A Q op \<Longrightarrow> run_hops h ops = Inr h'
   \<Longrightarrow> evolves A Q h h'"
proof (induction ops arbitrary: h)
  case Nil
  then show ?case by (simp add: evolves_refl)
next
  case (Cons op ops)
  from Cons.prems(3) obtain h1 where s: "run_hop h op = Inr h1" and r: "run_hops h1 ops = Inr h'"
    by (auto split: sum.splits)
  from Cons.prems(1,2) s have e: "evolves A Q h h1" by (auto intro: evolves_run_hop)
  then have "region_closed h1 A Q" by (rule evolves_closed)
  with Cons.prems(2) r have "evolves A Q h1 h'" by (auto intro: Cons.IH)
  with e show ?case by (rule evolves_trans)
qed

lemma copy_result_new_closed:
  "region_closed (copy_result h bq a1 a2) {next_char h, Suc (next_char h)} {next_queue h}"
  by (auto simp: region_closed_def copy_result_def Let_def copied_character_def qrefs_def)

lemma copy_result_old_same:
  "a < next_char h \<Longrightarrow> chars (copy_result h bq a1 a2) a = chars h a"
  "q < next_queue h \<Longrightarrow> queues (copy_result h bq a1 a2) q = queues h q"
  by (simp_all add: copy_result_def Let_def)

lemma copy_result_old_closed:
  assumes "region_closed h {..<next_char h} {..<next_queue h}"
  shows "region_closed (copy_result h bq a1 a2) {..<next_char h} {..<next_queue h}"
  using assms by (simp add: region_closed_def copy_result_old_same)

lemma copy_Inr:
  assumes "copy h bq = Inr (c, h0)"
  obtains a1 a2 where "p1 (queues h bq) = Some a1" and "p2 (queues h bq) = Some a2"
    and "c = next_queue h" and "h0 = copy_result h bq a1 a2"
  using assms by (auto simp: copy_eq split: option.splits)

lemma copy_succeeds:
  "p1 (queues h bq) = Some a1 \<Longrightarrow> p2 (queues h bq) = Some a2
   \<Longrightarrow> copy h bq = Inr (next_queue h, copy_result h bq a1 a2)"
  by (simp add: copy_eq)

lemma copied_is_copy:
  assumes "qclass (queues h bq) = RestrictedBattleQueue"
    and "p1 (queues h bq) = Some a1" and "p2 (queues h bq) = Some a2"
    and "copy h bq = Inr (c, h')"
  shows "queues h' c = copied (queues h bq) a1 (next_char h) (Suc (next_char h))"
  using assms
  by (auto simp: copy_eq copy_result_def Let_def copied_def RestrictedBattleQueue_init_def)

section \<open>The recursive engine returns\<close>

text \<open>
  Every valid move costs its caster a positive number of skill points, so the skill
  points the two participants of a game have left bound the depth of the recursion
  of \<open>get_state_score\<close>.
\<close>

text \<open>What a move costs: the sp of the caster goes down by the cost of the skill, no
  other sp changes.\<close>

lemma h_add_chars: "h_add h q c = Inr h' \<Longrightarrow> chars h' = chars h"
  by (auto simp: h_add_def split: sum.splits)

lemma h_drain_chars: "h_drain h q = Inr h' \<Longrightarrow> chars h' = chars h"
  by (auto simp: h_drain_def split: sum.splits)

lemma h_remove_chars: "h_remove h q = Inr (x, h') \<Longrightarrow> chars h' = chars h"
  by (auto simp: h_remove_def split: sum.splits)

lemma h_peek_chars: "h_peek h q = (r, h') \<Longrightarrow> chars h' = chars h"
  by (auto simp: h_peek_def split: prod.splits)

lemma sp_deal_damage:
  "sp (chars (deal_damage s h c t) x) =
     (if x = c then sp (chars h c) - get_sp_cost s else sp (chars h x))"
  by (simp add: deal_damage_def reduce_sp_def apply_damage_def set_char_def Let_def)

lemma sp_set_hp: "sp (chars (set_hp h a v) x) = sp (chars h x)"
  by (simp add: set_hp_def set_char_def)

lemma sp_NormalAttack_use:
  "NormalAttack_use s h c t = Inr h' \<Longrightarrow>
   sp (chars h' x) = (if x = c then sp (chars h c) - get_sp_cost s else sp (chars h x))"
  by (auto simp: NormalAttack_use_def Let_def sp_deal_damage dest!: h_add_chars)

lemma sp_use:
  assumes "use s h c t = Inr h'"
  shows "sp (chars h' x) = (if x = c then sp (chars h c) - get_sp_cost s else sp (chars h x))"
proof (cases s)
  case MageAttack
  with assms show ?thesis using sp_NormalAttack_use [of s h c t h' x] by simp
next
  case RogueAttack
  with assms show ?thesis using sp_NormalAttack_use [of s h c t h' x] by simp
next
  case MageSpecial
  with assms show ?thesis
    by (auto simp: Let_def sp_deal_damage dest!: bindE_Inr h_add_chars)
next
  case RogueSpecial
  with assms show ?thesis
    by (auto simp: Let_def sp_deal_damage dest!: bindE_Inr h_add_chars)
next
  case VampireAttack
  with assms obtain h1 v where a: "NormalAttack_use s h c t = Inr h1" and b: "h' = set_hp h1 c v"
    by (auto simp: Let_def dest!: bindE_Inr)
  show ?thesis unfolding b sp_set_hp using a by (rule sp_NormalAttack_use)
next
  case VampireSpecial
  with assms show ?thesis
    by (auto simp: Let_def sp_deal_damage sp_set_hp dest!: bindE_Inr h_add_chars)
next
  case SorcererAttack
  with assms show ?thesis by (auto simp: Let_def sp_deal_damage sp_set_hp)
next
  case SorcererSpecial
  with assms show ?thesis
    by (auto simp: Let_def sp_deal_damage dest!: bindE_Inr h_add_chars h_drain_chars)
qed

text \<open>The cost of the move with label \<open>a\<close> for a character of class \<open>t\<close>.\<close>

lemma sp_attack:
  assumes "attack h a = Inr h'" and "skills (ctype (chars h a)) ''A'' = Some s"
  shows "sp (chars h' x) = (if x = a then sp (chars h a) - get_sp_cost s else sp (chars h x))"
proof -
  from assms(1) obtain t where t: "enemy (chars h a) = Some t"
    by (auto simp: attack_def split: option.splits)
  show ?thesis
  proof (cases "ctype (chars h a)")
    case Mage
    with assms t show ?thesis using sp_use [of MageAttack h a t h' x] by (simp add: attack_def)
  next
    case Rogue
    with assms t show ?thesis using sp_use [of RogueAttack h a t h' x] by (simp add: attack_def)
  next
    case Vampire
    with assms t show ?thesis using sp_use [of VampireAttack h a t h' x] by (simp add: attack_def)
  next
    case Sorcerer
    with assms(1) t obtain s' h1 where u: "use s' h a t = Inr h1"
      and v: "use SorcererAttack (set_sp h1 a (sp (chars h a))) a t = Inr h'"
      by (auto simp: attack_def Let_def split: option.splits dest!: bindE_Inr)
    from Sorcerer assms(2) have s: "s = SorcererAttack" by simp
    have "sp (chars (set_sp h1 a (sp (chars h a))) y) = sp (chars h y)" for y
      using sp_use [OF u, of y] by (simp add: set_sp_def set_char_def)
    with sp_use [OF v, of x] show ?thesis by (simp add: s)
  qed
qed

lemma sp_special_attack:
  assumes "special_attack h a = Inr h'" and "skills (ctype (chars h a)) ''S'' = Some s"
  shows "sp (chars h' x) = (if x = a then sp (chars h a) - get_sp_cost s else sp (chars h x))"
proof -
  from assms(1) obtain t where t: "enemy (chars h a) = Some t"
    by (auto simp: special_attack_def split: option.splits)
  from assms t have "use s h a t = Inr h'"
    by (cases "ctype (chars h a)") (auto simp: special_attack_def simp del: use.simps)
  then show ?thesis by (rule sp_use)
qed

lemma cost_positive: "0 < get_sp_cost s"
  by (cases s) simp_all

lemma well_formed_evolves:
  assumes "well_formed h qa a1 a2" and "evolves {a1, a2} {qa} h h'"
  shows "well_formed h' qa a1 a2"
  using assms
  by (auto simp: well_formed_def evolves_def same_outside_def same_links_def)

lemma well_formed_elsewhere:
  assumes "well_formed h qa a1 a2" and "evolves A Q h h'"
    and "a1 \<notin> A" and "a2 \<notin> A" and "qa \<notin> Q"
  shows "well_formed h' qa a1 a2" and "sp_left h' a1 a2 = sp_left h a1 a2"
  using assms
  by (auto simp: well_formed_def evolves_def same_outside_def region_closed_def sp_left_def)

lemma well_formed_copy_kept:
  assumes "well_formed h qa a1 a2"
  shows "well_formed (copy_result h bq b1 b2) qa a1 a2"
    and "sp_left (copy_result h bq b1 b2) a1 a2 = sp_left h a1 a2"
  using assms
  by (auto simp: well_formed_def region_closed_def copy_result_old_same sp_left_def
      copy_result_def Let_def)

lemma well_formed_copy:
  "well_formed (copy_result h qa a1 a2) (next_queue h) (next_char h) (Suc (next_char h))"
  unfolding well_formed_def using copy_result_new_closed [of h qa a1 a2]
  by (simp add: copy_result_def Let_def)

lemma sp_left_copy:
  assumes "well_formed h qa a1 a2"
  shows "sp_left (copy_result h qa a1 a2) (next_char h) (Suc (next_char h)) = sp_left h a1 a2"
proof -
  from assms have "a2 \<noteq> next_char h" by (auto simp: well_formed_def)
  then show ?thesis by (simp add: sp_left_def copy_result_def Let_def copied_character_def)
qed

text \<open>Peeking twice gives the same character and changes nothing the second time.\<close>

lemma peek_again:
  assumes "peek cs q = (r, q')"
  shows "peek cs q' = (r, q')"
proof -
  from assms have q': "q' = clean_queue cs q" by (rule peek_clean)
  have "peek cs q' = peek cs q" by (simp add: peek_def Let_def q' clean_queue_def)
  with assms show ?thesis by simp
qed

lemma h_peek_again:
  assumes "h_peek h qa = (r, h1)"
  shows "h_peek h1 qa = (r, h1)"
proof -
  from assms obtain q' where p: "peek (chars h) (queues h qa) = (r, q')"
    and h1: "h1 = set_queue h qa q'"
    by (auto simp: h_peek_def split: prod.splits)
  from p have "peek (chars h) q' = (r, q')" by (rule peek_again)
  then show ?thesis by (simp add: h_peek_def h1 set_queue_def)
qed

text \<open>
  The block that makes a move on a copy: when the move is valid, the character at
  the head pays the cost of the skill, which it can afford.
\<close>

lemma play_moves:
  assumes ev: "evolves A Q h0 h" and q: "qa \<in> Q" and pk: "h_peek h qa = (Some c, h)"
    and sk: "skills (ctype (chars h c)) a = Some s" and pl: "play h qa a = Inr h'"
  shows "evolves A Q h0 h'" and "c \<in> A"
    and "sp (chars h' x) = (if x = c then sp (chars h c) - get_sp_cost s else sp (chars h x))"
proof -
  note cl = evolves_closed [OF ev]
  from evolves_h_peek(3) [OF cl q pk] show cA: "c \<in> A" by simp
  from pl obtain hm where
    mv: "(if a = ''A'' then attack h c else special_attack h c) = Inr hm"
    and rest: "(case h_peek hm qa of
                  (None, h3) \<Rightarrow> Inl AttributeError
                | (Some c', h3) \<Rightarrow>
                    if get_available_actions (chars h3 c') \<noteq> []
                    then (case h_remove h3 qa of
                            Inl e \<Rightarrow> Inl e
                          | Inr (x, h4) \<Rightarrow> Inr h4)
                    else Inr h3) = Inr h'"
    unfolding play_def pk by (simp split: sum.splits)
  have em: "evolves A Q h0 hm"
    using mv then_attack [OF ev cA] then_special_attack [OF ev cA] by (simp split: if_splits)
  from sk have a: "a = ''A'' \<or> a = ''S''" by (simp split: if_splits)
  have spm: "sp (chars hm x) = (if x = c then sp (chars h c) - get_sp_cost s else sp (chars h x))"
  proof (cases "a = ''A''")
    case True
    with mv sk show ?thesis using sp_attack [of h c hm s x] by simp
  next
    case False
    with a have "a = ''S''" by simp
    with mv sk show ?thesis using sp_special_attack [of h c hm s x] by simp
  qed
  from rest obtain c' hp where pk2: "h_peek hm qa = (Some c', hp)"
    and fin: "h' = hp \<or> (\<exists>y. h_remove hp qa = Inr (y, h'))"
    by (auto split: prod.splits option.splits sum.splits if_splits)
  note p2 = evolves_h_peek [OF evolves_closed [OF em] q pk2]
  have ep: "evolves A Q h0 hp" using em p2(1) by (rule evolves_trans)
  from fin have "evolves A Q h0 h' \<and> chars h' = chars hp"
  proof
    assume "h' = hp"
    with ep show ?thesis by simp
  next
    assume "\<exists>y. h_remove hp qa = Inr (y, h')"
    then obtain y where r: "h_remove hp qa = Inr (y, h')" ..
    note rm = evolves_h_remove [OF evolves_closed [OF ep] q r]
    from ep rm(1) have "evolves A Q h0 h'" by (rule evolves_trans)
    with rm(2) show ?thesis by simp
  qed
  then show "evolves A Q h0 h'"
    and "sp (chars h' x) = (if x = c then sp (chars h c) - get_sp_cost s else sp (chars h x))"
    using spm p2(2) by simp_all
qed

lemma explore_moves:
  assumes cl: "region_closed h A Q" and q: "qa \<in> Q" and ex: "explore h qa a = Inr (r, h')"
  shows "evolves A Q h h'
         \<and> (r = None \<longrightarrow> chars h' = chars h)
         \<and> (r \<noteq> None \<longrightarrow>
              (\<exists>c\<in>A. \<exists>s. get_sp_cost s \<le> sp (chars h c) \<and>
                 (\<forall>x. sp (chars h' x) =
                    (if x = c then sp (chars h c) - get_sp_cost s else sp (chars h x)))))"
proof -
  obtain player h1 where pk1: "h_peek h qa = (player, h1)" by (cases "h_peek h qa")
  note p1 = evolves_h_peek [OF cl q pk1]
  have pk2: "h_peek h1 qa = (player, h1)" using pk1 by (rule h_peek_again)
  from ex pk1 pk2 obtain c where pl: "player = Some c"
    by (cases player) (simp_all add: explore_def)
  show ?thesis
  proof (cases "is_valid_action (chars h1 c) a")
    case False
    with ex pk1 pk2 pl have "r = None" and "h' = h1" by (simp_all add: explore_def)
    with p1 show ?thesis by simp
  next
    case True
    then obtain s where sk: "skills (ctype (chars h1 c)) a = Some s"
      and af: "get_sp_cost s \<le> sp (chars h1 c)"
      by (auto simp: is_valid_action_def split: option.splits)
    from ex pk1 pk2 pl True obtain h3 cur where play: "play h1 qa a = Inr h3"
      and pk4: "h_peek h3 qa = (cur, h')" and r: "r \<noteq> None"
      by (auto simp: explore_def split: sum.splits prod.splits)
    note m = play_moves [OF p1(1) q pk2 [unfolded pl] sk play]
    note p4 = evolves_h_peek [OF evolves_closed [OF m(1)] q pk4]
    from m(1) p4(1) have e: "evolves A Q h h'" by (rule evolves_trans)
    have "\<forall>x. sp (chars h' x) =
                  (if x = c then sp (chars h c) - get_sp_cost s else sp (chars h x))"
      using m(3) p4(2) p1(2) by simp
    with m(2) af p1(2)
    have "\<exists>c\<in>A. \<exists>s. get_sp_cost s \<le> sp (chars h c) \<and>
           (\<forall>x. sp (chars h' x) =
                  (if x = c then sp (chars h c) - get_sp_cost s else sp (chars h x)))"
      by auto
    with e r show ?thesis by auto
  qed
qed

lemma explore_well_formed:
  assumes wf: "well_formed h qa a1 a2" and ex: "explore h qa a = Inr (r, h')"
  shows "well_formed h' qa a1 a2"
    and "r = None \<Longrightarrow> sp_left h' a1 a2 = sp_left h a1 a2"
    and "r \<noteq> None \<Longrightarrow> sp_left h' a1 a2 < sp_left h a1 a2"
proof -
  from wf have cl: "region_closed h {a1, a2} {qa}" by (simp add: well_formed_def)
  have q: "qa \<in> {qa}" by simp
  note e = explore_moves [OF cl q ex]
  from e have "evolves {a1, a2} {qa} h h'" by simp
  with wf show "well_formed h' qa a1 a2" by (rule well_formed_evolves)
  show "sp_left h' a1 a2 = sp_left h a1 a2" if "r = None"
    using e that by (simp add: sp_left_def)
  show "sp_left h' a1 a2 < sp_left h a1 a2" if "r \<noteq> None"
  proof -
    from e that obtain c s where c: "c = a1 \<or> c = a2"
      and af: "get_sp_cost s \<le> sp (chars h c)"
      and sp: "\<And>x. sp (chars h' x) =
                  (if x = c then sp (chars h c) - get_sp_cost s else sp (chars h x))"
      by auto
    have pos: "0 < get_sp_cost s" by (rule cost_positive)
    from c show ?thesis
    proof
      assume "c = a1"
      with af pos show ?thesis unfolding sp_left_def sp by (cases "a2 = a1") auto
    next
      assume "c = a2"
      with af pos show ?thesis unfolding sp_left_def sp by (cases "a2 = a1") auto
    qed
  qed
qed

text \<open>
  One branch of \<open>get_state_score\<close>: the score of a copy after the move, or the
  initial value \<open>d\<close> when the move was not valid.
\<close>

lemma branch_returns:
  assumes wf: "well_formed h qa a1 a2" and ex: "explore h qa a = Inr (r, h')"
    and ih: "\<And>g q b1 b2. well_formed g q b1 b2 \<Longrightarrow> sp_left g b1 b2 < sp_left h a1 a2
               \<Longrightarrow> \<exists>x. get_state_score g q = Some x"
  shows "\<exists>c. (case r of
                None \<Rightarrow> Some (Inr d)
              | Some same \<Rightarrow>
                  Option.bind (get_state_score h' qa) (\<lambda>r. Some (signed same r))) = Some c"
proof (cases r)
  case None
  then show ?thesis by simp
next
  case (Some same)
  note e = explore_well_formed [OF wf ex]
  from Some e(3) have "sp_left h' a1 a2 < sp_left h a1 a2" by simp
  with e(1) obtain x where "get_state_score h' qa = Some x" using ih by blast
  with Some show ?thesis by simp
qed

lemma get_state_score_returns_below:
  "well_formed h qa a1 a2 \<Longrightarrow> sp_left h a1 a2 < k \<Longrightarrow> \<exists>r. get_state_score h qa = Some r"
proof (induction k arbitrary: h qa a1 a2)
  case 0
  then show ?case by simp
next
  case (Suc k)
  note wf = Suc.prems(1)
  then have cl: "region_closed h {a1, a2} {qa}" by (simp add: well_formed_def)
  have q: "qa \<in> {qa}" by simp
  show ?case
  proof (cases "h_is_over h qa")
    case (Inl e)
    then show ?thesis by (subst get_state_score.simps) simp
  next
    case (Inr p)
    obtain over h1 where "p = (over, h1)" by (cases p)
    with Inr have o: "h_is_over h qa = Inr (over, h1)" by simp
    note io = evolves_h_is_over [OF cl q o]
    have wf1: "well_formed h1 qa a1 a2" using wf io(1) by (rule well_formed_evolves)
    have m1: "sp_left h1 a1 a2 = sp_left h a1 a2" by (simp add: sp_left_def io(2))
    show ?thesis
    proof (cases over)
      case True
      with o show ?thesis by (subst get_state_score.simps) simp
    next
      case False
      define n where "n = next_char h1"
      define nq where "nq = next_queue h1"
      define h2 where "h2 = copy_result h1 qa a1 a2"
      define h3 where "h3 = copy_result h2 qa a1 a2"
      from wf1 have k1: "copy h1 qa = Inr (nq, h2)"
        unfolding nq_def h2_def by (intro copy_succeeds) (simp_all add: well_formed_def)
      have wf2: "well_formed h2 qa a1 a2" and m2: "sp_left h2 a1 a2 = sp_left h a1 a2"
        unfolding h2_def using well_formed_copy_kept [OF wf1] m1 by simp_all
      have wfa2: "well_formed h2 nq n (Suc n)" and ma2: "sp_left h2 n (Suc n) = sp_left h a1 a2"
        unfolding h2_def nq_def n_def using well_formed_copy sp_left_copy [OF wf1] m1
        by simp_all
      have nn: "next_char h2 = Suc (Suc n)" "next_queue h2 = Suc nq"
        by (simp_all add: h2_def n_def nq_def copy_result_def Let_def)
      from wf2 have k2: "copy h2 qa = Inr (Suc nq, h3)"
        unfolding nn(2) [symmetric] h3_def
        by (intro copy_succeeds) (simp_all add: well_formed_def)
      have wfa3: "well_formed h3 nq n (Suc n)" and ma3: "sp_left h3 n (Suc n) = sp_left h a1 a2"
        unfolding h3_def using well_formed_copy_kept [OF wfa2] ma2 by simp_all
      have wfb3: "well_formed h3 (Suc nq) (Suc (Suc n)) (Suc (Suc (Suc n)))"
        and mb3: "sp_left h3 (Suc (Suc n)) (Suc (Suc (Suc n))) = sp_left h a1 a2"
        unfolding h3_def using well_formed_copy [of h2] sp_left_copy [OF wf2] m2
        by (simp_all add: nn)
      have ih: "\<exists>x. get_state_score g q = Some x"
        if "well_formed g q b1 b2" and "sp_left g b1 b2 < sp_left h a1 a2" for g q b1 b2
      proof -
        from that(2) Suc.prems(2) have "sp_left g b1 b2 < k" by simp
        with that(1) show ?thesis by (rule Suc.IH)
      qed
      show ?thesis
      proof (cases "explore h3 nq ''S''")
        case (Inl e)
        show ?thesis by (subst get_state_score.simps) (simp add: o False k1 k2 Inl)
      next
        case (Inr x1)
        then obtain r1 h4 where ex1: "explore h3 nq ''S'' = Inr (r1, h4)" by (cases x1) simp
        from wfa3 have cl3: "region_closed h3 {n, Suc n} {nq}" by (simp add: well_formed_def)
        from explore_moves [OF cl3 _ ex1] have ev4: "evolves {n, Suc n} {nq} h3 h4" by simp
        have wfb4: "well_formed h4 (Suc nq) (Suc (Suc n)) (Suc (Suc (Suc n)))"
          and mb4: "sp_left h4 (Suc (Suc n)) (Suc (Suc (Suc n))) = sp_left h a1 a2"
          using well_formed_elsewhere [OF wfb3 ev4] mb3 by simp_all
        from ma3 ih have "\<And>g q b1 b2. well_formed g q b1 b2
            \<Longrightarrow> sp_left g b1 b2 < sp_left h3 n (Suc n) \<Longrightarrow> \<exists>x. get_state_score g q = Some x"
          by simp
        with wfa3 ex1 have "\<exists>c. (case r1 of
                None \<Rightarrow> Some (Inr (- 42423232424))
              | Some same \<Rightarrow>
                  Option.bind (get_state_score h4 nq) (\<lambda>r. Some (signed same r))) = Some c"
          by (rule branch_returns)
        then obtain c1 where b1: "(case r1 of
                None \<Rightarrow> Some (Inr (- 42423232424))
              | Some same \<Rightarrow>
                  Option.bind (get_state_score h4 nq) (\<lambda>r. Some (signed same r))) = Some c1" ..
        show ?thesis
        proof (cases c1)
          case (Inl e)
          show ?thesis
            by (subst get_state_score.simps) (simp add: o False k1 k2 ex1 b1 Inl)
        next
          case s1: (Inr copy1_score)
          show ?thesis
          proof (cases "explore h4 (Suc nq) ''A''")
            case (Inl e)
            show ?thesis
              by (subst get_state_score.simps) (simp add: o False k1 k2 ex1 b1 s1 Inl)
          next
            case (Inr x2)
            then obtain r2 h5 where ex2: "explore h4 (Suc nq) ''A'' = Inr (r2, h5)"
              by (cases x2) simp
            from mb4 ih have "\<And>g q b1 b2. well_formed g q b1 b2
                \<Longrightarrow> sp_left g b1 b2 < sp_left h4 (Suc (Suc n)) (Suc (Suc (Suc n)))
                \<Longrightarrow> \<exists>x. get_state_score g q = Some x"
              by simp
            with wfb4 ex2 have "\<exists>c. (case r2 of
                None \<Rightarrow> Some (Inr (- 64545353434))
              | Some same \<Rightarrow>
                  Option.bind (get_state_score h5 (Suc nq)) (\<lambda>r. Some (signed same r))) = Some c"
              by (rule branch_returns)
            then obtain c2 where b2: "(case r2 of
                None \<Rightarrow> Some (Inr (- 64545353434))
              | Some same \<Rightarrow>
                  Option.bind (get_state_score h5 (Suc nq)) (\<lambda>r. Some (signed same r))) = Some c2" ..
            show ?thesis
              by (subst get_state_score.simps)
                (simp add: o False k1 k2 ex1 b1 s1 ex2 b2 split: sum.splits)
          qed
        qed
      qed
    qed
  qed
qed

text \<open>On a well-formed game the recursion of \<open>get_state_score\<close> ends.\<close>

lemma get_state_score_returns:
  "well_formed h qa a1 a2 \<Longrightarrow> \<exists>r. get_state_score h qa = Some r"
  using get_state_score_returns_below [of h qa a1 a2 "Suc (sp_left h a1 a2)"] by simp

text \<open>
  \<open>select_attack\<close> of RecursiveMinimax returns on every heap and queue (with an
  error if the queue has no participants yet): the scores are asked of copies, and
  every copy is a well-formed game.
\<close>

lemma scored_branch_returns:
  assumes wf: "well_formed h qa a1 a2" and ex: "explore h qa a = Inr (r, h')"
  shows "\<exists>c. (case r of
                None \<Rightarrow> Some (Inr d)
              | Some same \<Rightarrow>
                  Option.bind (get_state_score h' qa) (\<lambda>r. Some (signed same r))) = Some c"
  using wf ex get_state_score_returns by (rule branch_returns)

lemma copy_scores_returns: "\<exists>r. copy_scores get_state_score h bq = Some r"
proof (cases "copy h bq")
  case (Inl e)
  then show ?thesis by (simp add: copy_scores_def)
next
  case (Inr x1)
  then obtain copy1 h1 where k1: "copy h bq = Inr (copy1, h1)" by (cases x1) simp
  define n where "n = next_char h"
  from k1 obtain a1 a2 where c1: "copy1 = next_queue h" and h1: "h1 = copy_result h bq a1 a2"
    by (rule copy_Inr)
  have wf1: "well_formed h1 copy1 n (Suc n)" unfolding c1 h1 n_def by (rule well_formed_copy)
  have nn: "next_char h1 = Suc (Suc n)" "next_queue h1 = Suc copy1"
    by (simp_all add: h1 c1 n_def copy_result_def Let_def)
  show ?thesis
  proof (cases "copy h1 bq")
    case (Inl e)
    with k1 show ?thesis by (simp add: copy_scores_def)
  next
    case (Inr x2)
    then obtain copy2 h2 where k2: "copy h1 bq = Inr (copy2, h2)" by (cases x2) simp
    from k2 obtain b1 b2 where c2: "copy2 = next_queue h1" and h2: "h2 = copy_result h1 bq b1 b2"
      by (rule copy_Inr)
    have wfa2: "well_formed h2 copy1 n (Suc n)"
      unfolding h2 using wf1 by (rule well_formed_copy_kept)
    have wfb2: "well_formed h2 copy2 (Suc (Suc n)) (Suc (Suc (Suc n)))"
      unfolding h2 c2 using well_formed_copy [of h1 bq b1 b2] by (simp add: nn)
    show ?thesis
    proof (cases "explore h2 copy1 ''A''")
      case (Inl e)
      with k1 k2 show ?thesis by (simp add: copy_scores_def)
    next
      case (Inr x3)
      then obtain r1 h3 where ex1: "explore h2 copy1 ''A'' = Inr (r1, h3)" by (cases x3) simp
      from wfa2 have cl2: "region_closed h2 {n, Suc n} {copy1}" by (simp add: well_formed_def)
      from explore_moves [OF cl2 _ ex1] have ev3: "evolves {n, Suc n} {copy1} h2 h3" by simp
      have wfb3: "well_formed h3 copy2 (Suc (Suc n)) (Suc (Suc (Suc n)))"
        using well_formed_elsewhere(1) [OF wfb2 ev3] by (simp add: c2 nn)
      from scored_branch_returns [OF wfa2 ex1, of "- 5445543"]
      obtain s1 where b1: "(case r1 of
                None \<Rightarrow> Some (Inr (- 5445543))
              | Some same \<Rightarrow>
                  Option.bind (get_state_score h3 copy1) (\<lambda>r. Some (signed same r))) = Some s1" ..
      show ?thesis
      proof (cases "explore h3 copy2 ''S''")
        case (Inl e)
        with k1 k2 ex1 b1 show ?thesis by (simp add: copy_scores_def split: sum.splits)
      next
        case (Inr x4)
        then obtain r2 h4 where ex2: "explore h3 copy2 ''S'' = Inr (r2, h4)" by (cases x4) simp
        from scored_branch_returns [OF wfb3 ex2, of "- 6476444"]
        obtain s2 where b2: "(case r2 of
                None \<Rightarrow> Some (Inr (- 6476444))
              | Some same \<Rightarrow>
                  Option.bind (get_state_score h4 copy2) (\<lambda>r. Some (signed same r))) = Some s2" ..
        from k1 k2 ex1 b1 ex2 b2 show ?thesis by (simp add: copy_scores_def split: sum.splits)
      qed
    qed
  qed
qed

lemma RecursiveMinimax_select_attack_returns:
  "\<exists>r. RecursiveMinimax_select_attack h bq = Some r"
proof -
  obtain r where "copy_scores get_state_score h bq = Some r"
    using copy_scores_returns by blast
  then show ?thesis
    by (simp add: RecursiveMinimax_select_attack_def select_attack_with_def
        split: sum.splits prod.splits)
qed

section \<open>Claims about the queues\<close>

text \<open>
  C3 as stated fails.  With both distinguished participants at hp 0 the state is
  terminal, and \<open>get_winner\<close> returns the second participant, not none: the test
  of the first participant's hp comes first and decides.
\<close>

theorem C3_both_zero_gives_second:
  "is_over both_down duel = Inr (True, duel) \<and> hp (both_down 0) = 0 \<and> hp (both_down 1) = 0
   \<and> get_winner both_down duel = Inr (Some 1, duel)"
  by (simp add: queue_eval both_down_def duel_def)

text \<open>
  C3, amended: for every terminal state of a queue with its two distinguished
  participants set, \<open>get_winner\<close> returns the second participant when the first
  one's hp is 0 (also when both are 0), the first participant when only the second
  one's hp is 0, and none when the state is terminal with no hp at 0.
\<close>

theorem C3_get_winner_terminal:
  assumes "is_over cs q = Inr (True, q')" and "p1 q = Some a" and "p2 q = Some b"
  shows "get_winner cs q =
           Inr (if hp (cs a) = 0 then Some b else if hp (cs b) = 0 then Some a else None, q')"
proof -
  have "q' = clean_queue cs q" using assms(1) by (rule is_over_clean)
  then have "p1 q' = Some a" and "p2 q' = Some b"
    using assms(2,3) by (simp_all add: clean_queue_fields)
  then show ?thesis by (simp add: get_winner_def assms(1))
qed

theorem C3_get_winner_terminal_witness:
  "is_over one_down duel = Inr (True, duel) \<and> p1 duel = Some 0 \<and> p2 duel = Some 1
   \<and> get_winner one_down duel = Inr (Some 0, duel)"
proof -
  have o: "is_over one_down duel = Inr (True, duel)"
    by (simp add: queue_eval duel_def one_down_def)
  have a: "p1 duel = Some 0" and b: "p2 duel = Some 1" by (simp_all add: duel_def)
  from C3_get_winner_terminal [OF o a b] o a b show ?thesis
    by (simp add: two_rogues_def Character_init_def one_down_def)
qed

text \<open>
  C4 fails on the code: \<open>peek\<close> (like \<open>is_empty\<close> and \<open>is_over\<close>) prunes the turn
  sequence through \<open>_clean_queue\<close> and leaves the ledger as it is.  A Rogue with sp 0
  is added to a new RestrictedBattleQueue and \<open>peek\<close> is called: the sequence is
  empty, the ledger still has one entry.
\<close>

theorem C4_peek_leaves_ledger_behind:
  "run_ops [(tired_store, Add 0), (tired_store, Peek)] RestrictedBattleQueue_init
   = Inr \<lparr>qclass = RestrictedBattleQueue, content = [], p1 = Some 0, p2 = Some 1,
           can_add = [''yes'']\<rparr>"
  by (simp add: queue_eval tired_store_def)

text \<open>
  C5 as stated fails for the empty sequence of operations: on a new BattleQueue
  \<open>peek\<close> returns none, the initial value of the first participant.
\<close>

theorem C5_peek_on_new_queue: "fst (peek fresh_store BattleQueue_init) = None"
  by (simp add: queue_eval)

text \<open>
  C5, amended: for every sequence of operations on a new BattleQueue that
  succeeds and contains at least one add, \<open>peek\<close> does not return none, and when
  pruning empties the sequence it returns the first character ever added.
\<close>

theorem C5_peek_after_an_add:
  assumes "run_ops ops BattleQueue_init = Inr q" and "first_added ops = Some c"
  shows "fst (peek cs q) \<noteq> None
       \<and> (content (snd (peek cs q)) = [] \<longrightarrow> fst (peek cs q) = Some c)"
proof -
  have "p1 q = Some c"
    using assms(1) _ assms(2) by (rule run_ops_first_added) (simp add: BattleQueue_init_def)
  then show ?thesis
    by (auto simp: peek_def Let_def clean_queue_def split: list.splits)
qed

theorem C5_peek_after_an_add_witness:
  "run_ops [(tired_store, Add 0), (tired_store, Add 1), (tired_store, Remove)] BattleQueue_init
     = Inr drained
   \<and> first_added [(tired_store, Add 0), (tired_store, Add 1), (tired_store, Remove)] = Some 0
   \<and> content (snd (peek tired_store drained)) = []
   \<and> fst (peek tired_store drained) = Some 0"
proof -
  have r: "run_ops [(tired_store, Add 0), (tired_store, Add 1), (tired_store, Remove)]
             BattleQueue_init = Inr drained"
    by (simp add: queue_eval tired_store_def drained_def)
  have f: "first_added [(tired_store, Add 0), (tired_store, Add 1), (tired_store, Remove)] = Some 0"
    by simp
  have e: "content (snd (peek tired_store drained)) = []"
    by (simp add: peek_def clean_queue_def Let_def drained_def)
  from C5_peek_after_an_add [OF r f, of tired_store] r f e show ?thesis by blast
qed

text \<open>
  C6: on every reachable RestrictedBattleQueue with a non-empty turn sequence and
  a ledger whose head is \<open>'no'\<close>, \<open>add\<close> of any character returns with the queue
  object (sequence, ledger, both participants) exactly as before, and so does any
  number of further calls.
\<close>

theorem C6_rejected_add_changes_nothing:
  assumes "reachable q" and "content q \<noteq> []" and "can_add q = ''no'' # fs"
  shows "RestrictedBattleQueue_add cs q c = Inr q \<and> add_each cs q characters = Inr q"
proof -
  have c: "ledger_covers q" using assms(1) by (rule reachable_ledger_covers)
  have one: "RestrictedBattleQueue_add cs q c = Inr q" for c
    using c assms(2,3) by (rule rejected_add)
  have "add_each cs q characters = Inr q"
    by (induction characters) (simp_all add: one)
  with one show ?thesis by simp
qed

theorem C6_rejected_add_changes_nothing_witness:
  "reachable rejecting_queue \<and> content rejecting_queue \<noteq> []
   \<and> can_add rejecting_queue = ''no'' # []
   \<and> RestrictedBattleQueue_add fresh_store rejecting_queue 1 = Inr rejecting_queue
   \<and> add_each fresh_store rejecting_queue [1, 0, 1] = Inr rejecting_queue"
proof -
  have "run_ops [(fresh_store, Add 0), (fresh_store, Add 0), (fresh_store, Add 0),
                 (fresh_store, Remove), (fresh_store, Remove)] RestrictedBattleQueue_init
        = Inr rejecting_queue"
    by (simp add: queue_eval fresh_store_def rejecting_queue_def)
  with r_init have r: "reachable rejecting_queue" by (rule run_ops_reachable)
  have n: "content rejecting_queue \<noteq> []" and l: "can_add rejecting_queue = ''no'' # []"
    by (simp_all add: rejecting_queue_def)
  from C6_rejected_add_changes_nothing [OF r n l, of fresh_store 1 "[1, 0, 1]"] r n l
  show ?thesis by blast
qed

text \<open>
  C7 fails on the code, through the defect of C4.  Rogue 0 is added three times
  and Rogue 1 once; the head is removed; Rogue 0 then has no sp left, so \<open>peek\<close>
  prunes its two entries from the sequence but not from the ledger; Rogue 1, now
  at the head, is added three times.  The count of its eligible occurrences reads
  the stale ledger entries, and Rogue 1 ends with three occurrences marked
  eligible, whichever way the ledger is read.
\<close>

theorem C7_three_eligible_occurrences:
  "run_ops [(fresh_store, Add 0), (fresh_store, Add 0), (fresh_store, Add 0), (fresh_store, Add 1),
            (fresh_store, Remove), (tired_store, Peek),
            (tired_store, Add 1), (tired_store, Add 1), (tired_store, Add 1)]
     RestrictedBattleQueue_init
   = Inr \<lparr>qclass = RestrictedBattleQueue, content = [1, 1, 1, 1], p1 = Some 0, p2 = Some 1,
           can_add = [''yes'', ''no'', ''yes'', ''yes'', ''yes'', ''no'']\<rparr>
   \<and> eligible_occurrences
        \<lparr>qclass = RestrictedBattleQueue, content = [1, 1, 1, 1], p1 = Some 0, p2 = Some 1,
         can_add = [''yes'', ''no'', ''yes'', ''yes'', ''yes'', ''no'']\<rparr> 1 = 3
   \<and> eligible_occurrences_from_end
        \<lparr>qclass = RestrictedBattleQueue, content = [1, 1, 1, 1], p1 = Some 0, p2 = Some 1,
         can_add = [''yes'', ''no'', ''yes'', ''yes'', ''yes'', ''no'']\<rparr> 1 = 3"
  by (simp add: queue_eval fresh_store_def tired_store_def eligible_occurrences_def
        eligible_occurrences_from_end_def)

section \<open>Claims about the two engines\<close>

lemma best_label_tie: "best_label s s = ''A''"
  by (simp add: best_label_def)

lemma best_label_never_X: "best_label s1 s2 \<noteq> ''X''"
  by (simp add: best_label_def Let_def)

lemma recursive_scores_at_odds:
  "copy_scores get_state_score rogues_at_odds 0 = Some (Inr ((- 5, True), (5, True)))"
  unfolding copy_scores_def
  supply not_None_eq [simp del]
  apply (simp add: heap_eval rogues_at_odds_def)
  apply (subst get_state_score.simps)
  apply (simp add: heap_eval)
  apply (subst get_state_score.simps)
  apply (simp add: heap_eval)
  apply (subst get_state_score.simps)
  apply (simp add: heap_eval)
  done

lemma iterative_scores_at_odds:
  "copy_scores iterative_score rogues_at_odds 0 = Some (Inr ((5, True), (5, True)))"
  unfolding copy_scores_def
  supply not_None_eq [simp del]
  apply (simp add: heap_eval iter_eval rogues_at_odds_def)
  apply (subst iterate.simps)
  apply (simp add: heap_eval iter_eval)
  apply (subst iterate.simps)
  apply (simp add: heap_eval iter_eval)
  apply (subst iterate.simps)
  apply (simp add: heap_eval iter_eval)
  apply (subst iterate.simps)
  apply (simp add: heap_eval iter_eval)
  apply (subst iterate.simps)
  apply (simp add: heap_eval iter_eval)
  apply (subst iterate.simps)
  apply (simp add: heap_eval iter_eval)
  done

lemma recursive_score_last_hit: "get_state_score rogue_last_hit 0 = Some (Inr 5)"
  apply (subst get_state_score.simps)
  apply (simp add: heap_eval rogue_last_hit_def)
  apply (subst get_state_score.simps)
  apply (simp add: heap_eval)
  done

lemma iterative_score_last_hit: "iterative_get_score rogue_last_hit 0 = Some (Inr (Some (- 5)))"
  apply (simp add: heap_eval iter_eval rogue_last_hit_def)
  apply (subst iterate.simps)
  apply (simp add: heap_eval iter_eval)
  apply (subst iterate.simps)
  apply (simp add: heap_eval iter_eval)
  apply (subst iterate.simps)
  apply (simp add: heap_eval iter_eval)
  apply (subst iterate.simps)
  apply (simp add: heap_eval iter_eval)
  done

text \<open>
  C1 fails on the code.  Two Rogues, the first with hp 5 and sp 10, the second
  with hp 10 and sp 3, queued in this order: the recursive engine chooses \<open>'S'\<close>
  (the special attack wins at once), the iterative one \<open>'A'\<close>, after which the
  second Rogue wins.  And with the second Rogue (hp 5, sp 3) queued before the
  first (hp 5, sp 7), \<open>get_state_score\<close> is 5 and \<open>iterative_get_score\<close> is -5.  The
  iterative engine decides whether to negate a child's score by comparing the
  classes of the two players (\<open>type(child.state.peek()) == type(player)\<close>), which
  are the same for two Rogues, where the recursive engine compares the players.
\<close>

theorem C1_engines_disagree:
  "RecursiveMinimax_select_attack rogues_at_odds 0 = Some (Inr ''S'')
   \<and> IterativeMinimax_select_attack rogues_at_odds 0 = Some (Inr ''A'')
   \<and> get_state_score rogue_last_hit 0 = Some (Inr 5)
   \<and> iterative_get_score rogue_last_hit 0 = Some (Inr (Some (- 5)))"
  by (simp add: RecursiveMinimax_select_attack_def IterativeMinimax_select_attack_def
        select_attack_with_def recursive_scores_at_odds iterative_scores_at_odds
        recursive_score_last_hit iterative_score_last_hit best_label_def)

lemma spent_scores:
  "copy_scores f spent_rogues 0 = Some (Inr ((- 5445543, False), (- 6476444, False)))"
  unfolding copy_scores_def by (simp add: heap_eval spent_rogues_def del: not_None_eq)

text \<open>
  C2 fails on the code.  Two Rogues with no sp left: the head of the queue can
  afford neither move, and both \<open>select_attack\<close> methods return \<open>'A'\<close>.  The label
  is \<open>'A'\<close> when the maximum of the two scores equals \<open>copy1_score\<close>, \<open>'S'\<close> when it
  equals \<open>copy2_score\<close>, and the maximum of two numbers is always one of them; with
  both scores left at their initial values the larger one is \<open>copy1_score\<close>.
\<close>

theorem C2_no_legal_move_gives_A:
  "fst (h_peek spent_rogues 0) = Some 0
   \<and> \<not> is_valid_action (chars spent_rogues 0) ''A''
   \<and> \<not> is_valid_action (chars spent_rogues 0) ''S''
   \<and> RecursiveMinimax_select_attack spent_rogues 0 = Some (Inr ''A'')
   \<and> IterativeMinimax_select_attack spent_rogues 0 = Some (Inr ''A'')"
  by (simp add: RecursiveMinimax_select_attack_def IterativeMinimax_select_attack_def
        select_attack_with_def spent_scores best_label_def)
     (simp add: heap_eval spent_rogues_def)

text \<open>The state of a queue whose participants both have hp 0 is over, and the second
  participant is its winner.\<close>

lemma is_over_first_zero:
  "p1 q = Some a \<Longrightarrow> hp (cs a) = 0 \<Longrightarrow> is_over cs q = Inr (True, clean_queue cs q)"
  by (cases "clean cs (content q) = []")
     (simp_all add: is_over_def is_empty_def Let_def clean_queue_def)

lemma get_winner_first_zero:
  "p1 q = Some a \<Longrightarrow> p2 q = Some b \<Longrightarrow> hp (cs a) = 0
   \<Longrightarrow> get_winner cs q = Inr (Some b, clean_queue cs q)"
  by (simp add: get_winner_def is_over_first_zero clean_queue_fields)

lemma clean_queue_idem [simp]: "clean_queue cs (clean_queue cs q) = clean_queue cs q"
  by (simp add: clean_queue_def)

lemma terminal_score_both_zero:
  assumes "p1 (queues h qa) = Some a" and "p2 (queues h qa) = Some b"
    and "hp (chars h a) = 0" and "hp (chars h b) = 0"
  shows "terminal_score h qa = Inr 0"
proof -
  let ?q = "clean_queue (chars h) (queues h qa)"
  let ?h = "set_queue h qa ?q"
  have w: "h_get_winner h qa = Inr (Some b, ?h)"
    using assms by (simp add: h_get_winner_def get_winner_first_zero)
  have q: "queues ?h qa = ?q" by simp
  have pq: "p1 ?q = Some a" "p2 ?q = Some b" using assms(1,2) by (simp_all add: clean_queue_fields)
  have w': "h_get_winner ?h qa = Inr (Some b, ?h)"
    using assms(3) pq by (simp add: h_get_winner_def get_winner_first_zero)
  obtain pk where pk: "h_peek ?h qa = (pk, ?h)"
    by (cases "content ?q") (simp_all add: h_peek_def peek_def Let_def)
  show ?thesis
  proof (cases "Some b = pk")
    case True
    with w w' pk assms(4) show ?thesis by (auto simp: terminal_score_def)
  next
    case False
    with w w' pk assms(4) show ?thesis by (simp add: terminal_score_def)
  qed
qed

text \<open>
  C9: for every queue whose two distinguished participants both have hp 0 (such
  a state is over), \<open>get_state_score\<close> returns 0, and so does
  \<open>iterative_get_score\<close>, through the terminal branch of its loop; the sequence
  of the queue, and so the combatant at its head, is arbitrary.
\<close>

theorem C9_double_zero_scores_zero:
  assumes "p1 (queues h bq) = Some a" and "p2 (queues h bq) = Some b"
    and "hp (chars h a) = 0" and "hp (chars h b) = 0"
  shows "get_state_score h bq = Some (Inr 0) \<and> iterative_get_score h bq = Some (Inr (Some 0))"
proof
  let ?h = "set_queue h bq (clean_queue (chars h) (queues h bq))"
  have o: "h_is_over h bq = Inr (True, ?h)"
    using assms(1,3) by (simp add: h_is_over_def is_over_first_zero)
  have "terminal_score ?h bq = Inr 0"
    using assms by (intro terminal_score_both_zero [of _ _ a b]) (simp_all add: clean_queue_fields)
  with o show "get_state_score h bq = Some (Inr 0)"
    by (subst get_state_score.simps) simp
next
  define n where "n = next_char h"
  define c where "c = next_queue h"
  define h0 where "h0 = copy_result h bq a b"
  have cp: "copy h bq = Inr (c, h0)" using assms(1,2) by (simp add: copy_eq c_def h0_def)
  have p: "p1 (queues h0 c) = Some n" "p2 (queues h0 c) = Some (Suc n)"
    by (simp_all add: h0_def copy_result_def Let_def c_def n_def)
  have z: "hp (chars h0 n) = 0" "hp (chars h0 (Suc n)) = 0"
    using assms(3,4) by (simp_all add: h0_def copy_result_def Let_def n_def copied_character_def)
  let ?h = "set_queue h0 c (clean_queue (chars h0) (queues h0 c))"
  have o: "h_is_over h0 c = Inr (True, ?h)"
    using p(1) z(1) by (simp add: h_is_over_def is_over_first_zero)
  have t: "terminal_score ?h c = Inr 0"
    using p z by (intro terminal_score_both_zero [of _ _ n "Suc n"])
      (simp_all add: clean_queue_fields)
  show "iterative_get_score h bq = Some (Inr (Some 0))"
    unfolding iterative_get_score_def cp
    apply (simp add: Tree_init_def)
    apply (subst iterate.simps)
    apply (simp add: o t)
    apply (subst iterate.simps)
    apply (simp add: set_score_def)
    done
qed

theorem C9_double_zero_scores_zero_witness:
  "p1 (queues fallen_rogues 0) = Some 0 \<and> p2 (queues fallen_rogues 0) = Some 1
   \<and> hp (chars fallen_rogues 0) = 0 \<and> hp (chars fallen_rogues 1) = 0
   \<and> get_state_score fallen_rogues 0 = Some (Inr 0)
   \<and> iterative_get_score fallen_rogues 0 = Some (Inr (Some 0))"
proof -
  have a: "p1 (queues fallen_rogues 0) = Some 0" and b: "p2 (queues fallen_rogues 0) = Some 1"
    and c: "hp (chars fallen_rogues 0) = 0" and d: "hp (chars fallen_rogues 1) = 0"
    by (simp_all add: fallen_rogues_def duel_def fighter_def Character_init_def)
  from C9_double_zero_scores_zero [OF a b c d] a b c d show ?thesis by blast
qed

text \<open>
  C10: in both \<open>select_attack\<close> methods, whenever both moves are valid and the two
  scores computed for them are equal, the label returned is \<open>'A'\<close>.
\<close>

theorem C10_tie_goes_to_A:
  "(copy_scores get_state_score h bq = Some (Inr ((s, True), (s, True)))
      \<longrightarrow> RecursiveMinimax_select_attack h bq = Some (Inr ''A''))
   \<and> (copy_scores iterative_score h bq = Some (Inr ((s', True), (s', True)))
      \<longrightarrow> IterativeMinimax_select_attack h bq = Some (Inr ''A''))"
  by (simp add: RecursiveMinimax_select_attack_def IterativeMinimax_select_attack_def
        select_attack_with_def best_label_tie)

lemma recursive_scores_draw:
  "copy_scores get_state_score vampire_draw 0 = Some (Inr ((0, True), (0, True)))"
  unfolding copy_scores_def
  supply not_None_eq [simp del]
  apply (simp add: heap_eval vampire_draw_def)
  apply (subst get_state_score.simps)
  apply (simp add: heap_eval)
  apply (subst get_state_score.simps)
  apply (simp add: heap_eval)
  done

lemma iterative_scores_draw:
  "copy_scores iterative_score vampire_draw 0 = Some (Inr ((0, True), (0, True)))"
  unfolding copy_scores_def
  supply not_None_eq [simp del]
  apply (simp add: heap_eval iter_eval vampire_draw_def)
  apply (subst iterate.simps)
  apply (simp add: heap_eval iter_eval)
  apply (subst iterate.simps)
  apply (simp add: heap_eval iter_eval)
  apply (subst iterate.simps)
  apply (simp add: heap_eval iter_eval)
  apply (subst iterate.simps)
  apply (simp add: heap_eval iter_eval)
  done

theorem C10_tie_goes_to_A_witness:
  "copy_scores get_state_score vampire_draw 0 = Some (Inr ((0, True), (0, True)))
   \<and> RecursiveMinimax_select_attack vampire_draw 0 = Some (Inr ''A'')
   \<and> copy_scores iterative_score vampire_draw 0 = Some (Inr ((0, True), (0, True)))
   \<and> IterativeMinimax_select_attack vampire_draw 0 = Some (Inr ''A'')"
  using C10_tie_goes_to_A [of vampire_draw 0 0 0] recursive_scores_draw iterative_scores_draw
  by blast

section \<open>The claim about copies\<close>

text \<open>
  C8.  In a heap whose allocated objects refer to allocated objects only, let
  \<open>copy\<close> of a queue return the queue \<open>c\<close>.  The copy's combatants are the two new
  characters, and its turn sequence holds only them.  Any sequence of moves and
  queue operations on the copy and its combatants leaves every object that
  existed before the copy as it was (so the original queue, its turn sequence and
  the hp and sp of its combatants); any sequence of moves and queue operations on
  objects that existed before the copy leaves the copy's queue and its two
  combatants as they were.
\<close>

theorem C8_copy_shares_nothing:
  assumes "region_closed h {..<next_char h} {..<next_queue h}"
    and "copy h bq = Inr (c, h0)"
    and "run_hops h0 ops = Inr h'"
  shows "p1 (queues h0 c) = Some (next_char h) \<and> p2 (queues h0 c) = Some (Suc (next_char h))
       \<and> set (content (queues h0 c)) \<subseteq> {next_char h, Suc (next_char h)}
       \<and> ((\<forall>op\<in>set ops. within {next_char h, Suc (next_char h)} {c} op) \<longrightarrow>
            (\<forall>a<next_char h. chars h' a = chars h a)
            \<and> (\<forall>q<next_queue h. queues h' q = queues h q))
       \<and> ((\<forall>op\<in>set ops. within {..<next_char h} {..<next_queue h} op) \<longrightarrow>
            chars h' (next_char h) = chars h0 (next_char h)
            \<and> chars h' (Suc (next_char h)) = chars h0 (Suc (next_char h))
            \<and> queues h' c = queues h0 c)"
proof -
  from assms(2) obtain a1 a2 where c: "c = next_queue h" and h0: "h0 = copy_result h bq a1 a2"
    by (rule copy_Inr)
  let ?n = "next_char h"
  have new: "region_closed h0 {?n, Suc ?n} {c}" unfolding h0 c by (rule copy_result_new_closed)
  have old: "region_closed h0 {..<?n} {..<next_queue h}"
    unfolding h0 using assms(1) by (rule copy_result_old_closed)
  have parts: "p1 (queues h0 c) = Some ?n \<and> p2 (queues h0 c) = Some (Suc ?n)
       \<and> set (content (queues h0 c)) \<subseteq> {?n, Suc ?n}"
    using new by (auto simp: h0 c copy_result_def Let_def)
  have on_copy: "(\<forall>a<?n. chars h' a = chars h a) \<and> (\<forall>q<next_queue h. queues h' q = queues h q)"
    if w: "\<forall>op\<in>set ops. within {?n, Suc ?n} {c} op"
  proof -
    from new w assms(3) have "evolves {?n, Suc ?n} {c} h0 h'" by (rule evolves_run_hops)
    then have "same_outside h0 h' {?n, Suc ?n} {c}" by (simp add: evolves_def)
    then show ?thesis by (auto simp: same_outside_def c h0 copy_result_old_same)
  qed
  have on_original: "chars h' ?n = chars h0 ?n \<and> chars h' (Suc ?n) = chars h0 (Suc ?n)
       \<and> queues h' c = queues h0 c"
    if w: "\<forall>op\<in>set ops. within {..<?n} {..<next_queue h} op"
  proof -
    from old w assms(3) have "evolves {..<?n} {..<next_queue h} h0 h'" by (rule evolves_run_hops)
    then have "same_outside h0 h' {..<?n} {..<next_queue h}" by (simp add: evolves_def)
    then show ?thesis by (simp add: same_outside_def c)
  qed
  from parts on_copy on_original show ?thesis by blast
qed

lemma fresh_rogues_closed:
  "region_closed fresh_rogues {..<next_char fresh_rogues} {..<next_queue fresh_rogues}"
  by (auto simp: region_closed_def fresh_rogues_def qrefs_def duel_def fighter_def
        Character_init_def less_Suc_eq numeral_2_eq_2)

lemma fresh_rogues_copy: "copy fresh_rogues 0 = Inr (1, fresh_rogues_copied)"
  by (simp add: heap_eval fresh_rogues_def fresh_rogues_copied_def numeral_2_eq_2
        numeral_3_eq_3)

lemma moves_on_the_copy:
  "run_hops fresh_rogues_copied [Attack 2, QRemove 1, SpecialAttack 3, QPeek 1]
   = Inr moved_on_copy"
  by (simp add: heap_eval fresh_rogues_copied_def moved_on_copy_def)

lemma moves_on_the_original:
  "run_hops fresh_rogues_copied [Attack 0, QRemove 0, QAdd 0 1, QIsOver 0]
   = Inr moved_on_original"
  by (simp add: heap_eval fresh_rogues_copied_def moved_on_original_def)

theorem C8_copy_shares_nothing_witness:
  "copy fresh_rogues 0 = Inr (1, fresh_rogues_copied)
   \<and> run_hops fresh_rogues_copied [Attack 2, QRemove 1, SpecialAttack 3, QPeek 1]
       = Inr moved_on_copy
   \<and> hp (chars moved_on_copy 3) = 95 \<and> sp (chars moved_on_copy 2) = 97
   \<and> chars moved_on_copy 0 = chars fresh_rogues 0
   \<and> chars moved_on_copy 1 = chars fresh_rogues 1
   \<and> queues moved_on_copy 0 = queues fresh_rogues 0
   \<and> run_hops fresh_rogues_copied [Attack 0, QRemove 0, QAdd 0 1, QIsOver 0]
       = Inr moved_on_original
   \<and> hp (chars moved_on_original 1) = 95 \<and> sp (chars moved_on_original 0) = 97
   \<and> chars moved_on_original 2 = chars fresh_rogues_copied 2
   \<and> chars moved_on_original 3 = chars fresh_rogues_copied 3
   \<and> queues moved_on_original 1 = queues fresh_rogues_copied 1"
proof -
  have n: "next_char fresh_rogues = 2" "next_queue fresh_rogues = 1"
    by (simp_all add: fresh_rogues_def)
  have w1: "\<forall>op\<in>set [Attack 2, QRemove 1, SpecialAttack 3, QPeek 1]. within {2, 3} {1} op"
    by simp
  have w2: "\<forall>op\<in>set [Attack 0, QRemove 0, QAdd 0 1, QIsOver 0]. within {..<2} {..<1} op"
    by simp
  have "(\<forall>a<2. chars moved_on_copy a = chars fresh_rogues a)
      \<and> (\<forall>q<1. queues moved_on_copy q = queues fresh_rogues q)"
    using C8_copy_shares_nothing [OF fresh_rogues_closed fresh_rogues_copy moves_on_the_copy] w1
    by (simp add: n)
  then have u1: "chars moved_on_copy 0 = chars fresh_rogues 0"
    "chars moved_on_copy 1 = chars fresh_rogues 1"
    "queues moved_on_copy 0 = queues fresh_rogues 0"
    by simp_all
  have u2: "chars moved_on_original 2 = chars fresh_rogues_copied 2
      \<and> chars moved_on_original 3 = chars fresh_rogues_copied 3
      \<and> queues moved_on_original 1 = queues fresh_rogues_copied 1"
    using C8_copy_shares_nothing [OF fresh_rogues_closed fresh_rogues_copy moves_on_the_original] w2
    by (simp add: n)
  have v: "hp (chars moved_on_copy 3) = 95" "sp (chars moved_on_copy 2) = 97"
    "hp (chars moved_on_original 1) = 95" "sp (chars moved_on_original 0) = 97"
    by (simp_all add: moved_on_copy_def moved_on_original_def fighter_def Character_init_def)
  from fresh_rogues_copy moves_on_the_copy moves_on_the_original u1 u2 v
  show ?thesis by blast
qed

end
